theory Spec2Isabelle
  imports Main "HOL-Library.Word" "HOL-Library.Sublist" "HOL-Library.List_Lexorder" "HOL-Library.AList"
begin

section \<open>Basic data\<close>

text \<open>
  Go byte strings (\<^verbatim>\<open>[]byte\<close>, \<^verbatim>\<open>string\<close>) are lists of 8-bit words; Go compares
  strings bytewise and lexicographically, which is the order of \<open>List_Lexorder\<close> over
  the unsigned order of words. \<^verbatim>\<open>common.Hash\<close> is a 32-byte array, read as a 256-bit
  word. A Go map is an association list: a lookup is \<open>map_of\<close>, an assignment is
  \<open>AList.update\<close>, a deletion is \<open>AList.delete\<close>, and \<^verbatim>\<open>range\<close> walks
  \<open>AList.clearjunk\<close> (every key once; the order of the list stands for the order Go
  leaves unspecified). Pointers to the objects of the layer tree are addresses into an
  explicit heap; handles of the external stores (key-value store, caches, freezers)
  are plain references into an opaque external state.
\<close>

type_synonym byte = "8 word"
type_synonym bytes = "byte list"
type_synonym hash = "256 word"
type_synonym addr = nat
type_synonym ref = nat

datatype error =
    ErrSnapshotStale
  | ErrUnexpectedNode
  | ErrUnmatchedReverseDiff
  | ErrStateUnrecoverable
  | ErrOther string
  | Panic string
  | Fatal string

fun is_panic :: "error option \<Rightarrow> bool" where
  "is_panic (Some (Panic m)) = True"
| "is_panic (Some (Fatal m)) = True"
| "is_panic e = False"

text \<open>
  Modelled from the spec: the declarations of the trie node variants (\<^verbatim>\<open>fullNode\<close>,
  \<^verbatim>\<open>shortNode\<close>, \<^verbatim>\<open>hashNode\<close>, \<^verbatim>\<open>valueNode\<close>, \<^verbatim>\<open>rawNode\<close>) are not among
  the sources; a \<^verbatim>\<open>nil\<close> node is \<open>None\<close>.
\<close>

datatype node =
    FullNode "node option list"
  | ShortNode bytes "node option"
  | HashNode bytes
  | ValueNode bytes
  | RawNode bytes

record memoryNode =
  hash :: hash
  size :: "16 word"
  node :: "node option"

record nodeWithPrev = memoryNode +
  prev :: bytes

definition isDeleted :: "'a memoryNode_scheme \<Rightarrow> bool" where
  "isDeleted n = (memoryNode.hash n = 0)"

definition unwrap :: "nodeWithPrev \<Rightarrow> memoryNode" where
  "unwrap n = memoryNode.truncate n"

text \<open>\<^verbatim>\<open>memoryNodeSize\<close> is computed by reflection in the source; it is a parameter here.\<close>

definition memorySize :: "64 word \<Rightarrow> memoryNode \<Rightarrow> nat \<Rightarrow> 64 word" where
  "memorySize memoryNodeSize n pathlen = ucast (memoryNode.size n) + memoryNodeSize + of_nat pathlen"

definition memorySize_prev :: "64 word \<Rightarrow> nodeWithPrev \<Rightarrow> nat \<Rightarrow> 64 word" where
  "memorySize_prev memoryNodeSize n pathlen =
     memorySize memoryNodeSize (unwrap n) pathlen + of_nat (length (prev n))"

type_synonym nodemap = "(bytes \<times> nodeWithPrev) list"
type_synonym nodes = "(hash \<times> nodemap) list"

record NodeSet =
  owner :: hash
  nodes :: nodemap

definition NewNodeSet :: "hash \<Rightarrow> NodeSet" where
  "NewNodeSet ow = \<lparr>owner = ow, nodes = []\<rparr>"

definition markUpdated :: "NodeSet \<Rightarrow> bytes \<Rightarrow> memoryNode \<Rightarrow> bytes \<Rightarrow> NodeSet" where
  "markUpdated ns path n pv =
     ns\<lparr>nodes := AList.update path (memoryNode.extend n (nodeWithPrev.fields pv)) (nodes ns)\<rparr>"

definition markDeleted :: "NodeSet \<Rightarrow> bytes \<Rightarrow> bytes \<Rightarrow> NodeSet" where
  "markDeleted ns path pv =
     ns\<lparr>nodes := AList.update path \<lparr>hash = 0, size = 0, node = None, prev = pv\<rparr> (nodes ns)\<rparr>"

section \<open>Tip nodes\<close>

text \<open>
  The loop of \<^verbatim>\<open>forEachTipNode\<close> over the sorted paths: the path is pushed on the
  stack; with two entries on it the older one is a tip unless it is a prefix of the
  newer one, and it is popped.
\<close>

fun tipLoop :: "bytes list \<Rightarrow> bytes list \<Rightarrow> bytes list \<Rightarrow> bytes list \<times> bytes list" where
  "tipLoop [] stack tips = (stack, tips)"
| "tipLoop (path # paths) stack tips =
     (let stack1 = stack @ [path] in
      if length stack1 = 1 then tipLoop paths stack1 tips
      else
        let prv = stack1 ! 0; cur = stack1 ! 1;
            tips1 = (if \<not> prefix prv cur then tips @ [prv] else tips)
        in tipLoop paths (tl stack1) tips1)"

definition tipPaths :: "nodemap \<Rightarrow> bytes list" where
  "tipPaths ns =
     (let paths = sort (map fst (AList.clearjunk ns));
          (stack, tips) = tipLoop paths [] []
      in if length stack = 1 then tips @ [stack ! 0] else tips)"

text \<open>
  The callback returns an error or nothing and may change the state it closes over;
  it receives \<^verbatim>\<open>nodes[path]\<close>, a pointer (\<open>None\<close> is \<^verbatim>\<open>nil\<close>).
\<close>

fun forEachTip :: "nodemap \<Rightarrow> (bytes \<Rightarrow> nodeWithPrev option \<Rightarrow> 's \<Rightarrow> error option \<times> 's) \<Rightarrow>
    bytes list \<Rightarrow> 's \<Rightarrow> error option \<times> 's" where
  "forEachTip ns callback [] s = (None, s)"
| "forEachTip ns callback (path # tips) s =
     (case callback path (map_of ns path) s of
        (Some err, s1) \<Rightarrow> (Some err, s1)
      | (None, s1) \<Rightarrow> forEachTip ns callback tips s1)"

definition forEachTipNode :: "nodemap \<Rightarrow> (bytes \<Rightarrow> nodeWithPrev option \<Rightarrow> 's \<Rightarrow> error option \<times> 's) \<Rightarrow>
    's \<Rightarrow> error option \<times> 's" where
  "forEachTipNode ns callback s = forEachTip ns callback (tipPaths ns) s"

text \<open>A callback that only records its invocations, in order.\<close>

definition record_call :: "bytes \<Rightarrow> nodeWithPrev option \<Rightarrow> (bytes \<times> nodeWithPrev option) list \<Rightarrow>
    error option \<times> (bytes \<times> nodeWithPrev option) list" where
  "record_call path n calls = (None, calls @ [(path, n)])"

text \<open>Auxiliary (not from the source): the tips of a sorted list, read off adjacent pairs.\<close>

fun adjTips :: "bytes list \<Rightarrow> bytes list" where
  "adjTips [] = []"
| "adjTips [p] = [p]"
| "adjTips (p # q # r) = (if prefix p q then adjTips (q # r) else p # adjTips (q # r))"

text \<open>
  The tip nodes in the words of the specification: the paths of the set that are no
  strict prefix of another path of the set.
\<close>

definition tipSet :: "bytes set \<Rightarrow> bytes set" where
  "tipSet S = {p \<in> S. \<not> (\<exists>q\<in>S. strict_prefix p q)}"

section \<open>Codec helpers\<close>

text \<open>
  The node codec, the hex-key helpers and the hash conversions live in files that are
  not among the sources; they are parameters. A helper that can panic returns a sum.
\<close>

record codec =
  BytesToHash :: "bytes \<Rightarrow> hash"
  HashBytes :: "hash \<Rightarrow> bytes"
  Keccak256 :: "bytes \<Rightarrow> bytes"
  mustDecodeNodeUnsafe :: "bytes \<Rightarrow> bytes \<Rightarrow> error + node"
  mustDecodeNode :: "hash \<Rightarrow> bytes \<Rightarrow> error + node"
  expandNode :: "hash \<Rightarrow> node option \<Rightarrow> node option"
  nodeToBytes :: "node option \<Rightarrow> bytes"
  hasTerm :: "bytes \<Rightarrow> bool"
  hexToKeybytes :: "bytes \<Rightarrow> error + bytes"

definition rlp :: "codec \<Rightarrow> memoryNode \<Rightarrow> bytes" where
  "rlp c n = (case memoryNode.node n of Some (RawNode blob) \<Rightarrow> blob | nd \<Rightarrow> nodeToBytes c nd)"

definition obj :: "codec \<Rightarrow> memoryNode \<Rightarrow> error + node option" where
  "obj c n =
     (case memoryNode.node n of
        Some (RawNode blob) \<Rightarrow>
          (case mustDecodeNode c (memoryNode.hash n) blob of Inl err \<Rightarrow> Inl err | Inr nd \<Rightarrow> Inr (Some nd))
      | nd \<Rightarrow> Inr (expandNode c (memoryNode.hash n) nd))"

text \<open>
  \<^verbatim>\<open>resolve\<close>: the callback returns nothing and changes the state it closes over. The
  error of a recursive call on a child is dropped by the source; a panic is not.
\<close>

fun resolve :: "codec \<Rightarrow> bytes \<Rightarrow> node option \<Rightarrow> (bytes \<Rightarrow> bytes \<Rightarrow> 's \<Rightarrow> 's) \<Rightarrow> 's \<Rightarrow> error option \<times> 's"
  and resolveChildren :: "codec \<Rightarrow> bytes \<Rightarrow> nat \<Rightarrow> node option list \<Rightarrow> (bytes \<Rightarrow> bytes \<Rightarrow> 's \<Rightarrow> 's) \<Rightarrow> 's \<Rightarrow> error option \<times> 's"
where
  "resolve c pfx (Some (ShortNode key val)) callback s =
     (if \<not> hasTerm c key then (Some (ErrOther ''invalid tipnode''), s)
      else case hexToKeybytes c (pfx @ key) of
        Inl err \<Rightarrow> (Some err, s)
      | Inr kb \<Rightarrow>
          (case val of
             Some (ValueNode v) \<Rightarrow> (None, callback kb v s)
           | _ \<Rightarrow> (Some (Panic ''interface conversion''), s)))"
| "resolve c pfx (Some (FullNode children)) callback s =
     (case resolveChildren c pfx 0 children callback s of
        (err, s1) \<Rightarrow> (if is_panic err then (err, s1) else (None, s1)))"
| "resolve c pfx (Some (HashNode h)) callback s = (None, s)"
| "resolve c pfx (Some (ValueNode v)) callback s = (None, s)"
| "resolve c pfx (Some (RawNode b)) callback s = (None, s)"
| "resolve c pfx None callback s = (None, s)"
| "resolveChildren c pfx i [] callback s = (None, s)"
| "resolveChildren c pfx i (cn # cns) callback s =
     (if 16 \<le> i then (None, s)
      else if cn = None then resolveChildren c pfx (i + 1) cns callback s
      else case resolve c (pfx @ [of_nat i]) cn callback s of
        (err, s1) \<Rightarrow>
          (if is_panic err then (err, s1) else resolveChildren c pfx (i + 1) cns callback s1))"

definition resolvePrevLeaves :: "codec \<Rightarrow> nodemap \<Rightarrow> (bytes \<Rightarrow> bytes \<Rightarrow> 's \<Rightarrow> 's) \<Rightarrow> 's \<Rightarrow> error option \<times> 's" where
  "resolvePrevLeaves c ns callback s =
     forEachTipNode ns
       (\<lambda>pfx tip s1.
          case tip of
            None \<Rightarrow> (Some (Panic ''nil pointer dereference''), s1)
          | Some t \<Rightarrow>
              if length (prev t) = 0 then (None, s1)
              else (case mustDecodeNodeUnsafe c (Keccak256 c (prev t)) (prev t) of
                Inl err \<Rightarrow> (Some err, s1)
              | Inr n \<Rightarrow> resolve c pfx (Some n) callback s1))
       s"

section \<open>State history, first revision\<close>

record elementHistory =
  Key :: bytes
  Prev :: bytes

record accountIndex =
  Hash :: hash
  DataOffset :: "32 word"
  DataLength :: "32 word"
  SlotOffset :: "32 word"
  SlotNumber :: "32 word"

record slotIndex =
  Hash :: hash
  DataOffset :: "32 word"
  DataLength :: "32 word"

fun newSlotIndex :: "codec \<Rightarrow> 32 word \<Rightarrow> elementHistory list \<Rightarrow> slotIndex list \<Rightarrow> bytes \<Rightarrow>
    slotIndex list \<times> bytes \<times> 32 word" where
  "newSlotIndex c offset [] indexes data = (indexes, data, offset)"
| "newSlotIndex c offset (slot # slots) indexes data =
     newSlotIndex c (offset + of_nat (length (Prev slot))) slots
       (indexes @ [\<lparr>slotIndex.Hash = BytesToHash c (Key slot), slotIndex.DataOffset = offset,
                    slotIndex.DataLength = of_nat (length (Prev slot))\<rparr>])
       (data @ Prev slot)"

definition newAccountIndex1 :: "codec \<Rightarrow> elementHistory \<Rightarrow> 32 word \<Rightarrow> slotIndex list \<Rightarrow> 32 word \<Rightarrow>
    accountIndex \<times> 32 word" where
  "newAccountIndex1 c element accountOffset slotIndexes slotOffset =
     (\<lparr>accountIndex.Hash = BytesToHash c (Key element), accountIndex.DataOffset = accountOffset,
       accountIndex.DataLength = of_nat (length (Prev element)), accountIndex.SlotOffset = slotOffset,
       accountIndex.SlotNumber = of_nat (length slotIndexes)\<rparr>,
      accountOffset + of_nat (length (Prev element)))"

definition collectElement :: "bytes \<Rightarrow> bytes \<Rightarrow> elementHistory list \<Rightarrow> elementHistory list" where
  "collectElement path blob elements = elements @ [\<lparr>Key = path, Prev = blob\<rparr>]"

text \<open>
  The first loop of \<^verbatim>\<open>newStateHistory\<close>: per owner, the previous leaves; for the
  account trie also the account hashes and blobs. The error returned by
  \<^verbatim>\<open>resolvePrevLeaves\<close> is dropped by the source; a panic is not.
\<close>

fun gatherLeaves :: "codec \<Rightarrow> nodes \<Rightarrow> (hash \<times> elementHistory list) list \<Rightarrow> hash list \<Rightarrow> bytes list \<Rightarrow>
    error + ((hash \<times> elementHistory list) list \<times> hash list \<times> bytes list)" where
  "gatherLeaves c [] leaves accounts accountBlob = Inr (leaves, accounts, accountBlob)"
| "gatherLeaves c ((ow, sub) # rest) leaves accounts accountBlob =
     (case resolvePrevLeaves c sub collectElement [] of
        (err, elements) \<Rightarrow>
          if is_panic err then Inl (the err)
          else
            let leaves1 = AList.update ow elements leaves in
            if ow = 0 then
              gatherLeaves c rest leaves1
                (accounts @ map (\<lambda>el. BytesToHash c (Key el)) elements)
                (accountBlob @ map Prev elements)
            else gatherLeaves c rest leaves1 accounts accountBlob)"

text \<open>
  The second loop: \<^verbatim>\<open>leaves[account][i]\<close> indexes the leaves of the owner
  \<^verbatim>\<open>account\<close> by the position \<^verbatim>\<open>i\<close> of the account; out of range it panics.
\<close>

fun accountLoop :: "codec \<Rightarrow> (hash \<times> elementHistory list) list \<Rightarrow> nat \<Rightarrow> hash list \<Rightarrow>
    accountIndex list \<Rightarrow> slotIndex list \<Rightarrow> bytes \<Rightarrow> bytes \<Rightarrow> 32 word \<Rightarrow> 32 word \<Rightarrow>
    error + (accountIndex list \<times> slotIndex list \<times> bytes \<times> bytes)" where
  "accountLoop c leaves i [] accountIndexes slotIndexes accountData slotData accountOffset slotOffset =
     Inr (accountIndexes, slotIndexes, accountData, slotData)"
| "accountLoop c leaves i (account # rest) accountIndexes slotIndexes accountData slotData accountOffset slotOffset =
     (let slots = (case map_of leaves account of Some sl \<Rightarrow> sl | None \<Rightarrow> []) in
      case newSlotIndex c slotOffset slots [] [] of
        (sindexes, sdata, soffset) \<Rightarrow>
          if length slots \<le> i then Inl (Panic ''index out of range'')
          else case newAccountIndex1 c (slots ! i) accountOffset sindexes (of_nat (length sindexes)) of
            (aIndex, aoffset) \<Rightarrow>
              accountLoop c leaves (i + 1) rest (accountIndexes @ [aIndex]) (slotIndexes @ sindexes)
                (accountData @ Prev (slots ! i)) (slotData @ sdata) aoffset soffset)"

definition newStateHistory1 :: "codec \<Rightarrow> nodes \<Rightarrow>
    error + (accountIndex list \<times> slotIndex list \<times> bytes \<times> bytes)" where
  "newStateHistory1 c ns =
     (case gatherLeaves c (AList.clearjunk ns) [] [] [] of
        Inl err \<Rightarrow> Inl err
      | Inr (leaves, accounts, accountBlob) \<Rightarrow> accountLoop c leaves 0 accounts [] [] [] [] 0 0)"

section \<open>State history, second revision\<close>

text \<open>
  The source holds two revisions of the state-history file. The first one is kept
  above under the names \<open>newStateHistory1\<close> and \<open>newAccountIndex1\<close>; the second one,
  below, is the one the disk layer's commit is linked with.
\<close>

record stateHistory =
  Key :: bytes
  Prev :: bytes

record accountMetadata =
  Hash :: hash
  Offset :: "32 word"
  Length :: "32 word"
  SlotOffset :: "32 word"
  SlotNumber :: "32 word"

record storageMetadata =
  Hash :: hash
  Offset :: "32 word"
  Length :: "32 word"

definition PutUint32 :: "32 word \<Rightarrow> bytes" where
  "PutUint32 v = [ucast (drop_bit 24 v), ucast (drop_bit 16 v), ucast (drop_bit 8 v), ucast v]"

definition accountIndexes_encode :: "codec \<Rightarrow> accountMetadata list \<Rightarrow> bytes" where
  "accountIndexes_encode c is =
     concat (map (\<lambda>index. HashBytes c (accountMetadata.Hash index)
                    @ PutUint32 (accountMetadata.Offset index) @ PutUint32 (accountMetadata.Length index)
                    @ PutUint32 (accountMetadata.SlotOffset index) @ PutUint32 (accountMetadata.SlotNumber index)) is)"

definition slotIndexes_encode :: "codec \<Rightarrow> storageMetadata list \<Rightarrow> bytes" where
  "slotIndexes_encode c is =
     concat (map (\<lambda>index. HashBytes c (storageMetadata.Hash index)
                    @ PutUint32 (storageMetadata.Offset index) @ PutUint32 (storageMetadata.Length index)) is)"

fun newStorageMetadata :: "codec \<Rightarrow> 32 word \<Rightarrow> stateHistory list \<Rightarrow> storageMetadata list \<Rightarrow> bytes \<Rightarrow>
    storageMetadata list \<times> bytes \<times> 32 word" where
  "newStorageMetadata c offset [] metas data = (metas, data, offset)"
| "newStorageMetadata c offset (slot # storage) metas data =
     newStorageMetadata c (offset + of_nat (length (stateHistory.Prev slot))) storage
       (metas @ [\<lparr>storageMetadata.Hash = BytesToHash c (stateHistory.Key slot),
                  storageMetadata.Offset = offset,
                  storageMetadata.Length = of_nat (length (stateHistory.Prev slot))\<rparr>])
       (data @ stateHistory.Prev slot)"

definition newAccountIndex :: "codec \<Rightarrow> stateHistory \<Rightarrow> 32 word \<Rightarrow> storageMetadata list \<Rightarrow> 32 word \<Rightarrow>
    accountMetadata" where
  "newAccountIndex c element accountOffset slotIndexes slotOffset =
     \<lparr>accountMetadata.Hash = BytesToHash c (stateHistory.Key element),
      accountMetadata.Offset = accountOffset,
      accountMetadata.Length = of_nat (length (stateHistory.Prev element)),
      accountMetadata.SlotOffset = slotOffset,
      accountMetadata.SlotNumber = of_nat (length slotIndexes)\<rparr>"

definition collectState :: "bytes \<Rightarrow> bytes \<Rightarrow> stateHistory list \<Rightarrow> stateHistory list" where
  "collectState path blob elements = elements @ [\<lparr>stateHistory.Key = path, stateHistory.Prev = blob\<rparr>]"

fun gatherStates :: "codec \<Rightarrow> nodes \<Rightarrow> (hash \<times> stateHistory list) list \<Rightarrow>
    error + (hash \<times> stateHistory list) list" where
  "gatherStates c [] leaves = Inr leaves"
| "gatherStates c ((ow, sub) # rest) leaves =
     (case resolvePrevLeaves c sub collectState [] of
        (err, elements) \<Rightarrow>
          if is_panic err then Inl (the err)
          else gatherStates c rest (AList.update ow elements leaves))"

fun historyLoop :: "codec \<Rightarrow> (hash \<times> stateHistory list) list \<Rightarrow> stateHistory list \<Rightarrow>
    accountMetadata list \<Rightarrow> storageMetadata list \<Rightarrow> bytes \<Rightarrow> bytes \<Rightarrow> 32 word \<Rightarrow> 32 word \<Rightarrow> 32 word \<Rightarrow>
    accountMetadata list \<times> storageMetadata list \<times> bytes \<times> bytes" where
  "historyLoop c leaves [] accountMetas storageMetas accountData slotData accountOffset accountSlotOff slotOffset =
     (accountMetas, storageMetas, accountData, slotData)"
| "historyLoop c leaves (element # rest) accountMetas storageMetas accountData slotData accountOffset accountSlotOff slotOffset =
     (let accountHash = BytesToHash c (stateHistory.Key element);
          slots = (case map_of leaves accountHash of Some sl \<Rightarrow> sl | None \<Rightarrow> [])
      in case newStorageMetadata c slotOffset slots [] [] of
        (sMeta, sdata, soffset) \<Rightarrow>
          historyLoop c leaves rest
            (accountMetas @ [newAccountIndex c element accountOffset sMeta accountSlotOff])
            (storageMetas @ sMeta)
            (accountData @ stateHistory.Prev element) (slotData @ sdata)
            (accountOffset + of_nat (length (stateHistory.Prev element)))
            (accountSlotOff + of_nat (length sMeta)) soffset)"

definition newStateHistory :: "codec \<Rightarrow> nodes \<Rightarrow>
    error + (accountMetadata list \<times> storageMetadata list \<times> bytes \<times> bytes)" where
  "newStateHistory c ns =
     (case gatherStates c (AList.clearjunk ns) [] of
        Inl err \<Rightarrow> Inl err
      | Inr leaves \<Rightarrow>
          Inr (historyLoop c leaves (case map_of leaves 0 of Some els \<Rightarrow> els | None \<Rightarrow> [])
                 [] [] [] [] 0 0 0))"

section \<open>Layers and the external stores\<close>

record diffLayer =
  root :: hash
  diffid :: "64 word"
  nodes :: nodes
  memory :: "64 word"
  parent :: addr
  stale :: bool

record diskLayer =
  root :: hash
  diffid :: "64 word"
  diskdb :: ref
  clean :: "ref option"
  dirty :: ref
  stale :: bool

text \<open>
  The read-only \<^verbatim>\<open>diskLayerSnapshot\<close> is not among the sources and is left out: a tree
  of the model has a \<^verbatim>\<open>diskLayer\<close> at its bottom.
\<close>

datatype layer = DiffLayer diffLayer | DiskLayer diskLayer

text \<open>Modelled from the spec: the declaration of the reverse-diff record is not among the sources.\<close>

record reverseDiff =
  Version :: "64 word"
  Parent :: hash
  Root :: hash
  States :: "(hash \<times> (bytes \<times> bytes) list) list"

text \<open>
  The world: the heap of layer objects and the state \<open>'x\<close> of everything external
  (key-value store, clean cache, dirty caches, freezers). The dirty cache, the raw
  database accessors and the reverse-diff writer are not among the sources: they are
  the fields of \<open>ext\<close>, acting on the external state through the handles a layer holds.
  \<open>writeRevertBatch\<close> stands for the batch of \<^verbatim>\<open>revert\<close> (apply the reverse diff,
  write the reverse-diff head, write the batch).
\<close>

record 'x world =
  heap :: "layer list"
  xstate :: 'x

record 'x ext =
  codec :: codec
  memoryNodeSize :: "64 word"
  emptyRoot :: hash
  dirty_node :: "ref \<Rightarrow> hash \<Rightarrow> bytes \<Rightarrow> hash \<Rightarrow> 'x \<Rightarrow> error + memoryNode option"
  dirty_commit :: "ref \<Rightarrow> (hash \<times> (bytes \<times> memoryNode) list) list \<Rightarrow> 'x \<Rightarrow> ref \<times> 'x"
  dirty_mayFlush :: "ref \<Rightarrow> ref \<Rightarrow> ref option \<Rightarrow> 64 word \<Rightarrow> bool \<Rightarrow> 'x \<Rightarrow> error option \<times> 'x"
  dirty_empty :: "ref \<Rightarrow> 'x \<Rightarrow> bool"
  dirty_revert :: "ref \<Rightarrow> reverseDiff \<Rightarrow> 'x \<Rightarrow> error option \<times> 'x"
  clean_Get :: "ref \<Rightarrow> hash \<Rightarrow> 'x \<Rightarrow> bytes"
  clean_Set :: "ref \<Rightarrow> hash \<Rightarrow> bytes \<Rightarrow> 'x \<Rightarrow> 'x"
  ReadAccountTrieNode :: "ref \<Rightarrow> bytes \<Rightarrow> 'x \<Rightarrow> bytes \<times> hash"
  ReadStorageTrieNode :: "ref \<Rightarrow> hash \<Rightarrow> bytes \<Rightarrow> 'x \<Rightarrow> bytes \<times> hash"
  storeReverseDiff :: "ref \<Rightarrow> layer list \<Rightarrow> addr \<Rightarrow> 64 word \<Rightarrow> 'x \<Rightarrow> error option \<times> 'x"
  WriteStateHistory :: "ref \<Rightarrow> 64 word \<Rightarrow> bytes \<Rightarrow> bytes \<Rightarrow> bytes \<Rightarrow> bytes \<Rightarrow> 'x \<Rightarrow> 'x"
  writeRevertBatch :: "ref \<Rightarrow> reverseDiff \<Rightarrow> 64 word \<Rightarrow> 'x \<Rightarrow> error option \<times> 'x"

definition layer_at :: "layer list \<Rightarrow> addr \<Rightarrow> layer option" where
  "layer_at h a = (if a < length h then Some (h ! a) else None)"

text \<open>The methods of the \<^verbatim>\<open>snapshot\<close> interface that only read a field.\<close>

fun Root_of :: "layer \<Rightarrow> hash" where
  "Root_of (DiffLayer dl) = diffLayer.root dl"
| "Root_of (DiskLayer dl) = diskLayer.root dl"

fun ID :: "layer \<Rightarrow> 64 word" where
  "ID (DiffLayer dl) = diffLayer.diffid dl"
| "ID (DiskLayer dl) = diskLayer.diffid dl"

fun Stale :: "layer \<Rightarrow> bool" where
  "Stale (DiffLayer dl) = diffLayer.stale dl"
| "Stale (DiskLayer dl) = diskLayer.stale dl"

fun Parent_of :: "layer \<Rightarrow> addr option" where
  "Parent_of (DiffLayer dl) = Some (diffLayer.parent dl)"
| "Parent_of (DiskLayer dl) = None"

definition MarkStale :: "addr \<Rightarrow> 'x world \<Rightarrow> error + 'x world" where
  "MarkStale a w =
     (case layer_at (heap w) a of
        None \<Rightarrow> Inl (Panic ''nil pointer dereference'')
      | Some (DiffLayer dl) \<Rightarrow>
          if diffLayer.stale dl then Inl (Panic ''triedb diff layer is stale'')
          else Inr (w\<lparr>heap := (heap w)[a := DiffLayer (dl\<lparr>diffLayer.stale := True\<rparr>)]\<rparr>)
      | Some (DiskLayer dl) \<Rightarrow>
          if diskLayer.stale dl then Inl (Panic ''triedb disk layer is stale'')
          else Inr (w\<lparr>heap := (heap w)[a := DiskLayer (dl\<lparr>diskLayer.stale := True\<rparr>)]\<rparr>))"

section \<open>Node lookup\<close>

text \<open>
  \<^verbatim>\<open>diskLayer.node\<close>. The \<^verbatim>\<open>depth\<close> argument of the source only feeds metrics and is
  omitted, as are the meters. The lookup may fill the clean cache, so it returns the
  external state.
\<close>

definition diskLayer_node :: "'x ext \<Rightarrow> diskLayer \<Rightarrow> hash \<Rightarrow> bytes \<Rightarrow> hash \<Rightarrow> 'x \<Rightarrow>
    (error + memoryNode option) \<times> 'x" where
  "diskLayer_node e dl ow path h x =
     (if diskLayer.stale dl then (Inl ErrSnapshotStale, x)
      else case dirty_node e (dirty dl) ow path h x of
        Inl err \<Rightarrow> (Inl err, x)
      | Inr (Some n) \<Rightarrow> (Inr (Some n), x)
      | Inr None \<Rightarrow>
          (let blob = (case clean dl of Some cc \<Rightarrow> clean_Get e cc h x | None \<Rightarrow> []) in
           if clean dl \<noteq> None \<and> 0 < length blob
           then (Inr (Some \<lparr>hash = h, size = of_nat (length blob), node = Some (RawNode blob)\<rparr>), x)
           else
             (case (if ow = 0 then ReadAccountTrieNode e (diskdb dl) path x
                    else ReadStorageTrieNode e (diskdb dl) ow path x) of
                (nBlob, nHash) \<Rightarrow>
                  if nHash \<noteq> h then (Inl ErrUnexpectedNode, x)
                  else
                    let x1 = (case clean dl of
                                Some cc \<Rightarrow> if 0 < length nBlob then clean_Set e cc h nBlob x else x
                              | None \<Rightarrow> x)
                    in if length nBlob = 0 then (Inr None, x1)
                       else (Inr (Some \<lparr>hash = h, size = of_nat (length nBlob),
                                        node = Some (RawNode nBlob)\<rparr>), x1))))"

text \<open>
  \<^verbatim>\<open>snapshot.node\<close> on an address: a disk layer answers itself, a diff layer answers
  from its own map or asks its parent. The recursion follows parent pointers of the
  heap, so it is bounded by fuel: \<open>None\<close> is a lookup that has not returned.
\<close>

fun snapshot_node :: "'x ext \<Rightarrow> nat \<Rightarrow> addr \<Rightarrow> hash \<Rightarrow> bytes \<Rightarrow> hash \<Rightarrow> 'x world \<Rightarrow>
    ((error + memoryNode option) \<times> 'x world) option" where
  "snapshot_node e 0 a ow path h w = None"
| "snapshot_node e (Suc fuel) a ow path h w =
     (case layer_at (heap w) a of
        None \<Rightarrow> Some (Inl (Panic ''nil pointer dereference''), w)
      | Some (DiskLayer dl) \<Rightarrow>
          (case diskLayer_node e dl ow path h (xstate w) of
             (r, x1) \<Rightarrow> Some (r, w\<lparr>xstate := x1\<rparr>))
      | Some (DiffLayer dl) \<Rightarrow>
          if diffLayer.stale dl then Some (Inl ErrSnapshotStale, w)
          else
            (case map_of (diffLayer.nodes dl) ow of
               None \<Rightarrow> snapshot_node e fuel (diffLayer.parent dl) ow path h w
             | Some sub \<Rightarrow>
                 (case map_of sub path of
                    None \<Rightarrow> snapshot_node e fuel (diffLayer.parent dl) ow path h w
                  | Some n \<Rightarrow>
                      if memoryNode.hash n \<noteq> h then Some (Inl ErrUnexpectedNode, w)
                      else Some (Inr (Some (unwrap n)), w))))"

definition Node :: "'x ext \<Rightarrow> nat \<Rightarrow> addr \<Rightarrow> hash \<Rightarrow> bytes \<Rightarrow> hash \<Rightarrow> 'x world \<Rightarrow>
    ((error + node option) \<times> 'x world) option" where
  "Node e fuel a ow path h w =
     (case snapshot_node e fuel a ow path h w of
        None \<Rightarrow> None
      | Some (Inl err, w1) \<Rightarrow> Some (Inl err, w1)
      | Some (Inr None, w1) \<Rightarrow> Some (Inr None, w1)
      | Some (Inr (Some n), w1) \<Rightarrow> Some (obj (codec e) n, w1))"

definition NodeBlob :: "'x ext \<Rightarrow> nat \<Rightarrow> addr \<Rightarrow> hash \<Rightarrow> bytes \<Rightarrow> hash \<Rightarrow> 'x world \<Rightarrow>
    ((error + bytes) \<times> 'x world) option" where
  "NodeBlob e fuel a ow path h w =
     (case snapshot_node e fuel a ow path h w of
        None \<Rightarrow> None
      | Some (Inl err, w1) \<Rightarrow> Some (Inl err, w1)
      | Some (Inr None, w1) \<Rightarrow> Some (Inr [], w1)
      | Some (Inr (Some n), w1) \<Rightarrow> Some (Inr (rlp (codec e) n), w1))"

section \<open>Creating and committing layers\<close>

definition newDiffLayer :: "'x ext \<Rightarrow> addr \<Rightarrow> hash \<Rightarrow> 64 word \<Rightarrow> nodes \<Rightarrow> diffLayer" where
  "newDiffLayer e par rt did ns =
     \<lparr>diffLayer.root = rt, diffLayer.diffid = did, diffLayer.nodes = ns,
      diffLayer.memory =
        fold (\<lambda>(ow, sub) m.
                fold (\<lambda>(path, n) m1. m1 + memorySize_prev (memoryNodeSize e) n (length path))
                  (AList.clearjunk sub) m)
          (AList.clearjunk ns) 0,
      diffLayer.parent = par, diffLayer.stale = False\<rparr>"

text \<open>\<^verbatim>\<open>Update\<close> of either layer kind: a new diff layer object on top of the receiver.\<close>

definition Update :: "'x ext \<Rightarrow> addr \<Rightarrow> hash \<Rightarrow> 64 word \<Rightarrow> nodes \<Rightarrow> 'x world \<Rightarrow> addr \<times> 'x world" where
  "Update e a rt did ns w =
     (length (heap w), w\<lparr>heap := heap w @ [DiffLayer (newDiffLayer e a rt did ns)]\<rparr>)"

definition storeStateHistory :: "'x ext \<Rightarrow> ref \<Rightarrow> diffLayer \<Rightarrow> 'x \<Rightarrow> error option \<times> 'x" where
  "storeStateHistory e freezer dl x =
     (case newStateHistory (codec e) (diffLayer.nodes dl) of
        Inl err \<Rightarrow> (Some err, x)
      | Inr (aMeta, sMeta, aData, sData) \<Rightarrow>
          (None, WriteStateHistory e freezer (diffLayer.diffid dl)
                   (accountIndexes_encode (codec e) aMeta) (slotIndexes_encode (codec e) sMeta)
                   aData sData x))"

definition slim :: "nodes \<Rightarrow> (hash \<times> (bytes \<times> memoryNode) list) list" where
  "slim ns = map (\<lambda>(ow, sub). (ow, map (\<lambda>(path, n). (path, unwrap n)) (AList.clearjunk sub)))
               (AList.clearjunk ns)"

text \<open>
  \<^verbatim>\<open>diskLayer.commit\<close> on the disk layer at \<open>a\<close> with the bottom-most diff layer at
  \<open>b\<close>. The stale flag is set first; on every error return it stays set and no new
  layer is allocated.
\<close>

definition commit :: "'x ext \<Rightarrow> ref option \<Rightarrow> ref option \<Rightarrow> 64 word \<Rightarrow> addr \<Rightarrow> addr \<Rightarrow> bool \<Rightarrow> 'x world \<Rightarrow>
    (error + addr) \<times> 'x world" where
  "commit e freezer stateHistory statelimit a b force w =
     (case (layer_at (heap w) a, layer_at (heap w) b) of
        (Some (DiskLayer dl), Some (DiffLayer bottom)) \<Rightarrow>
          (let h1 = (heap w)[a := DiskLayer (dl\<lparr>diskLayer.stale := True\<rparr>)] in
           case (case freezer of
                   Some fz \<Rightarrow> storeReverseDiff e fz h1 b statelimit (xstate w)
                 | None \<Rightarrow> (None, xstate w)) of
             (Some err, x1) \<Rightarrow> (Inl err, \<lparr>heap = h1, xstate = x1\<rparr>)
           | (None, x1) \<Rightarrow>
               (case (case stateHistory of
                        Some sh \<Rightarrow> storeStateHistory e sh bottom x1
                      | None \<Rightarrow> (None, x1)) of
                  (Some err, x2) \<Rightarrow> (Inl err, \<lparr>heap = h1, xstate = x2\<rparr>)
                | (None, x2) \<Rightarrow>
                    (case dirty_commit e (dirty dl) (slim (diffLayer.nodes bottom)) x2 of
                       (nd, x3) \<Rightarrow>
                         (case dirty_mayFlush e nd (diskdb dl) (clean dl) (diffLayer.diffid bottom) force x3 of
                            (Some err, x4) \<Rightarrow> (Inl err, \<lparr>heap = h1, xstate = x4\<rparr>)
                          | (None, x4) \<Rightarrow>
                              (Inr (length h1),
                               \<lparr>heap = h1 @ [DiskLayer \<lparr>diskLayer.root = diffLayer.root bottom,
                                                         diskLayer.diffid = diffLayer.diffid bottom,
                                                         diskdb = diskdb dl, clean = clean dl,
                                                         dirty = nd, diskLayer.stale = False\<rparr>],
                                xstate = x4\<rparr>)))))
      | _ \<Rightarrow> (Inl (Panic ''nil pointer dereference''), w))"

text \<open>
  \<^verbatim>\<open>diskLayer.revert\<close>. A failed batch write ends the process (\<^verbatim>\<open>log.Crit\<close>): \<open>Fatal\<close>.
\<close>

definition revert :: "'x ext \<Rightarrow> addr \<Rightarrow> reverseDiff \<Rightarrow> 64 word \<Rightarrow> 'x world \<Rightarrow> (error + addr) \<times> 'x world" where
  "revert e a diff did w =
     (case layer_at (heap w) a of
        Some (DiskLayer dl) \<Rightarrow>
          if Root diff \<noteq> diskLayer.root dl then (Inl ErrUnmatchedReverseDiff, w)
          else if did \<noteq> diskLayer.diffid dl then (Inl ErrUnmatchedReverseDiff, w)
          else if diskLayer.diffid dl = 0 then (Inl ErrStateUnrecoverable, w)
          else
            (let h1 = (heap w)[a := DiskLayer (dl\<lparr>diskLayer.stale := True\<rparr>)] in
             case (if dirty_empty e (dirty dl) (xstate w)
                   then (case writeRevertBatch e (diskdb dl) diff (did - 1) (xstate w) of
                           (Some err, x1) \<Rightarrow> (Some (Fatal ''Failed to write reverse diff''), x1)
                         | (None, x1) \<Rightarrow> (None, x1))
                   else dirty_revert e (dirty dl) diff (xstate w)) of
               (Some err, x1) \<Rightarrow> (Inl err, \<lparr>heap = h1, xstate = x1\<rparr>)
             | (None, x1) \<Rightarrow>
                 (Inr (length h1),
                  \<lparr>heap = h1 @ [DiskLayer \<lparr>diskLayer.root = Parent diff,
                                            diskLayer.diffid = diskLayer.diffid dl - 1,
                                            diskdb = diskdb dl, clean = clean dl,
                                            dirty = dirty dl, diskLayer.stale = False\<rparr>],
                   xstate = x1\<rparr>))
      | _ \<Rightarrow> (Inl (Panic ''nil pointer dereference''), w))"

definition diffToDisk :: "'x ext \<Rightarrow> ref option \<Rightarrow> ref option \<Rightarrow> 64 word \<Rightarrow> addr \<Rightarrow> bool \<Rightarrow> 'x world \<Rightarrow>
    (error + addr) \<times> 'x world" where
  "diffToDisk e freezer stateHistory statelimit b force w =
     (case layer_at (heap w) b of
        Some (DiffLayer bottom) \<Rightarrow>
          (case layer_at (heap w) (diffLayer.parent bottom) of
             Some (DiskLayer dl) \<Rightarrow>
               commit e freezer stateHistory statelimit (diffLayer.parent bottom) b force w
           | _ \<Rightarrow> (Inl (Panic ''unknown layer type''), w))
      | _ \<Rightarrow> (Inl (Panic ''nil pointer dereference''), w))"

definition set_parent :: "layer list \<Rightarrow> addr \<Rightarrow> addr \<Rightarrow> layer list" where
  "set_parent h a p =
     (case layer_at h a of
        Some (DiffLayer dl) \<Rightarrow> h[a := DiffLayer (dl\<lparr>diffLayer.parent := p\<rparr>)]
      | _ \<Rightarrow> h)"

text \<open>
  \<^verbatim>\<open>diffLayer.persist\<close>: the parent chain is persisted first, bottom to top. The
  recursion follows parent pointers, so it is bounded by fuel.
\<close>

fun persist :: "'x ext \<Rightarrow> nat \<Rightarrow> ref option \<Rightarrow> ref option \<Rightarrow> 64 word \<Rightarrow> bool \<Rightarrow> addr \<Rightarrow> 'x world \<Rightarrow>
    ((error + addr) \<times> 'x world) option" where
  "persist e 0 freezer stateHistory statelimit force a w = None"
| "persist e (Suc fuel) freezer stateHistory statelimit force a w =
     (case layer_at (heap w) a of
        Some (DiffLayer dl) \<Rightarrow>
          (case layer_at (heap w) (diffLayer.parent dl) of
             Some (DiffLayer pl) \<Rightarrow>
               (case persist e fuel freezer stateHistory statelimit force (diffLayer.parent dl) w of
                  None \<Rightarrow> None
                | Some (Inl err, w1) \<Rightarrow> Some (Inl err, w1)
                | Some (Inr result, w1) \<Rightarrow>
                    Some (diffToDisk e freezer stateHistory statelimit a force
                            (w1\<lparr>heap := set_parent (heap w1) a result\<rparr>)))
           | _ \<Rightarrow> Some (diffToDisk e freezer stateHistory statelimit a force w))
      | _ \<Rightarrow> Some (Inl (Panic ''nil pointer dereference''), w))"

section \<open>The layer tree\<close>

record layerTree =
  layers :: "(hash \<times> addr) list"

definition convertEmpty :: "'x ext \<Rightarrow> hash \<Rightarrow> hash" where
  "convertEmpty e h = (if h = 0 then emptyRoot e else h)"

definition get :: "'x ext \<Rightarrow> layerTree \<Rightarrow> hash \<Rightarrow> addr option" where
  "get e t blockRoot = map_of (layers t) (convertEmpty e blockRoot)"

definition len :: "layerTree \<Rightarrow> nat" where
  "len t = length (AList.clearjunk (layers t))"

fun newLayerTree_loop :: "nat \<Rightarrow> layer list \<Rightarrow> addr option \<Rightarrow> (hash \<times> addr) list \<Rightarrow> (hash \<times> addr) list option" where
  "newLayerTree_loop fuel h None ls = Some ls"
| "newLayerTree_loop 0 h (Some a) ls = None"
| "newLayerTree_loop (Suc fuel) h (Some a) ls =
     (case layer_at h a of
        None \<Rightarrow> Some ls
      | Some l \<Rightarrow> newLayerTree_loop fuel h (Parent_of l) (AList.update (Root_of l) a ls))"

definition newLayerTree :: "nat \<Rightarrow> layer list \<Rightarrow> addr \<Rightarrow> layerTree option" where
  "newLayerTree fuel h head_layer =
     map_option (\<lambda>ls. \<lparr>layers = ls\<rparr>) (newLayerTree_loop fuel h (Some head_layer) [])"

definition add :: "'x ext \<Rightarrow> hash \<Rightarrow> hash \<Rightarrow> nodes \<Rightarrow> layerTree \<times> 'x world \<Rightarrow>
    error option \<times> layerTree \<times> 'x world" where
  "add e rt parentRoot ns tw =
     (case tw of (t, w) \<Rightarrow>
        let rt1 = convertEmpty e rt; parentRoot1 = convertEmpty e parentRoot in
        if rt1 = parentRoot1 then (Some (ErrOther ''snapshot cycle''), t, w)
        else case get e t parentRoot1 of
          None \<Rightarrow> (Some (ErrOther ''triedb parent snapshot missing''), t, w)
        | Some p \<Rightarrow>
            (case layer_at (heap w) p of
               None \<Rightarrow> (Some (ErrOther ''triedb parent snapshot missing''), t, w)
             | Some pl \<Rightarrow>
                 (case Update e p rt1 (ID pl + 1) ns w of
                    (snap, w1) \<Rightarrow> (None, t\<lparr>layers := AList.update rt1 snap (layers t)\<rparr>, w1))))"

text \<open>The walk of \<^verbatim>\<open>cap\<close> down the diff layers; \<open>None\<close> is a stack that is too shallow.\<close>

fun dive :: "layer list \<Rightarrow> nat \<Rightarrow> addr \<Rightarrow> addr option" where
  "dive h 0 a = Some a"
| "dive h (Suc k) a =
     (case layer_at h a of
        Some (DiffLayer dl) \<Rightarrow>
          (case layer_at h (diffLayer.parent dl) of
             Some (DiffLayer pl) \<Rightarrow> dive h k (diffLayer.parent dl)
           | _ \<Rightarrow> None)
      | _ \<Rightarrow> None)"

fun childrenIndex :: "layer list \<Rightarrow> (hash \<times> addr) list \<Rightarrow> (hash \<times> hash list) list \<Rightarrow>
    error + (hash \<times> hash list) list" where
  "childrenIndex h [] children = Inr children"
| "childrenIndex h ((rt, a) # rest) children =
     (case layer_at h a of
        Some (DiffLayer dl) \<Rightarrow>
          (case layer_at h (diffLayer.parent dl) of
             None \<Rightarrow> Inl (Panic ''nil pointer dereference'')
           | Some pl \<Rightarrow>
               childrenIndex h rest
                 (AList.update (Root_of pl)
                    ((case map_of children (Root_of pl) of Some cs \<Rightarrow> cs | None \<Rightarrow> []) @ [rt])
                    children))
      | _ \<Rightarrow> childrenIndex h rest children)"

text \<open>
  The recursive closure \<^verbatim>\<open>remove\<close>: it deletes the layer, then its children, then the
  entry of the children index. It follows the index, so it is bounded by fuel.
\<close>

fun remove :: "nat \<Rightarrow> hash \<Rightarrow> (hash \<times> addr) list \<times> (hash \<times> hash list) list \<Rightarrow>
      ((hash \<times> addr) list \<times> (hash \<times> hash list) list) option"
  and removeChildren :: "nat \<Rightarrow> hash list \<Rightarrow> (hash \<times> addr) list \<times> (hash \<times> hash list) list \<Rightarrow>
      ((hash \<times> addr) list \<times> (hash \<times> hash list) list) option"
where
  "remove 0 rt s = None"
| "remove (Suc fuel) rt s =
     (case s of (ls, children) \<Rightarrow>
        (case removeChildren fuel (case map_of children rt of Some cs \<Rightarrow> cs | None \<Rightarrow> [])
                (AList.delete rt ls, children) of
           None \<Rightarrow> None
         | Some (ls1, children1) \<Rightarrow> Some (ls1, AList.delete rt children1)))"
| "removeChildren fuel [] s = Some s"
| "removeChildren fuel (child # cs) s =
     (case remove fuel child s of
        None \<Rightarrow> None
      | Some s1 \<Rightarrow> removeChildren fuel cs s1)"

text \<open>
  The last loop of \<^verbatim>\<open>cap\<close> ranges over the layers while \<^verbatim>\<open>remove\<close> deletes from
  them: an entry deleted before it is reached is not produced.
\<close>

fun removeStale :: "nat \<Rightarrow> layer list \<Rightarrow> (hash \<times> addr) list \<Rightarrow>
      (hash \<times> addr) list \<times> (hash \<times> hash list) list \<Rightarrow>
      (error + (hash \<times> addr) list \<times> (hash \<times> hash list) list) option" where
  "removeStale fuel h [] s = Some (Inr s)"
| "removeStale fuel h ((rt, a0) # rest) s =
     (case map_of (fst s) rt of
        None \<Rightarrow> removeStale fuel h rest s
      | Some a \<Rightarrow>
          (case layer_at h a of
             None \<Rightarrow> Some (Inl (Panic ''nil pointer dereference''))
           | Some l \<Rightarrow>
               if Stale l then
                 (case remove fuel rt s of
                    None \<Rightarrow> None
                  | Some s1 \<Rightarrow> removeStale fuel h rest s1)
               else removeStale fuel h rest s))"

definition cap :: "'x ext \<Rightarrow> nat \<Rightarrow> hash \<Rightarrow> int \<Rightarrow> ref option \<Rightarrow> ref option \<Rightarrow> 64 word \<Rightarrow>
    layerTree \<times> 'x world \<Rightarrow> (error option \<times> layerTree \<times> 'x world) option" where
  "cap e fuel rt nlayers freezer stateHistory statelimit tw =
     (case tw of (t, w) \<Rightarrow>
        (case get e t (convertEmpty e rt) of
           None \<Rightarrow> Some (Some (ErrOther ''triedb snapshot missing''), t, w)
         | Some a \<Rightarrow>
             (case layer_at (heap w) a of
                None \<Rightarrow> Some (Some (ErrOther ''triedb snapshot missing''), t, w)
              | Some (DiskLayer dl) \<Rightarrow> Some (Some (ErrOther ''triedb snapshot is disk layer''), t, w)
              | Some (DiffLayer dl) \<Rightarrow>
                  if nlayers = 0 then
                    (case persist e fuel freezer stateHistory statelimit True a w of
                       None \<Rightarrow> None
                     | Some (Inl err, w1) \<Rightarrow> Some (Some err, t, w1)
                     | Some (Inr base, w1) \<Rightarrow>
                         (case layer_at (heap w1) base of
                            None \<Rightarrow> Some (Some (Panic ''nil pointer dereference''), t, w1)
                          | Some bl \<Rightarrow> Some (None, t\<lparr>layers := [(Root_of bl, base)]\<rparr>, w1)))
                  else
                    (case dive (heap w) (nat (nlayers - 1)) a of
                       None \<Rightarrow> Some (None, t, w)
                     | Some d \<Rightarrow>
                         (case layer_at (heap w) d of
                            Some (DiffLayer diff) \<Rightarrow>
                              (case layer_at (heap w) (diffLayer.parent diff) of
                                 Some (DiskLayer pl) \<Rightarrow> Some (None, t, w)
                               | None \<Rightarrow> Some (Some (Panic ''unknown data layer in triedb''), t, w)
                               | Some (DiffLayer pl) \<Rightarrow>
                                   (case persist e fuel freezer stateHistory statelimit False
                                           (diffLayer.parent diff) w of
                                      None \<Rightarrow> None
                                    | Some (Inl err, w1) \<Rightarrow> Some (Some err, t, w1)
                                    | Some (Inr base, w1) \<Rightarrow>
                                        (case layer_at (heap w1) base of
                                           None \<Rightarrow> Some (Some (Panic ''nil pointer dereference''), t, w1)
                                         | Some bl \<Rightarrow>
                                             (let ls1 = AList.update (Root_of bl) base (layers t);
                                                  w2 = w1\<lparr>heap := set_parent (heap w1) d base\<rparr>
                                              in case childrenIndex (heap w2) (AList.clearjunk ls1) [] of
                                                Inl err \<Rightarrow> Some (Some err, t\<lparr>layers := ls1\<rparr>, w2)
                                              | Inr children \<Rightarrow>
                                                  (case removeStale fuel (heap w2) (AList.clearjunk ls1)
                                                          (ls1, children) of
                                                     None \<Rightarrow> None
                                                   | Some (Inl err) \<Rightarrow> Some (Some err, t\<lparr>layers := ls1\<rparr>, w2)
                                                   | Some (Inr (ls2, children2)) \<Rightarrow>
                                                       Some (None, t\<lparr>layers := ls2\<rparr>, w2))))))
                          | _ \<Rightarrow> Some (Some (Panic ''nil pointer dereference''), t, w))))))"

section \<open>Operations as steps\<close>

text \<open>
  One step of the system: any of the operations above, applied to the tree and the
  world, successful or not (the world after a failed operation is the one the
  operation leaves behind).
\<close>

inductive step :: "'x ext \<Rightarrow> layerTree \<times> 'x world \<Rightarrow> layerTree \<times> 'x world \<Rightarrow> bool" for e :: "'x ext" where
  step_add: "add e rt parentRoot ns tw = (err, tw1) \<Longrightarrow> step e tw tw1"
| step_cap: "cap e fuel rt nlayers freezer stateHistory statelimit tw = Some (err, tw1) \<Longrightarrow> step e tw tw1"
| step_persist: "persist e fuel freezer stateHistory statelimit force a w = Some (r, w1) \<Longrightarrow> step e (t, w) (t, w1)"
| step_commit: "commit e freezer stateHistory statelimit a b force w = (r, w1) \<Longrightarrow> step e (t, w) (t, w1)"
| step_revert: "revert e a diff did w = (r, w1) \<Longrightarrow> step e (t, w) (t, w1)"
| step_MarkStale: "MarkStale a w = Inr w1 \<Longrightarrow> step e (t, w) (t, w1)"
| step_node: "snapshot_node e fuel a ow path h w = Some (rn, w1) \<Longrightarrow> step e (t, w) (t, w1)"

definition stale_kept :: "layer list \<Rightarrow> layer list \<Rightarrow> bool" where
  "stale_kept h h1 \<longleftrightarrow>
     (\<forall>a l. layer_at h a = Some l \<longrightarrow> Stale l \<longrightarrow> (\<exists>l1. layer_at h1 a = Some l1 \<and> Stale l1))"

section \<open>Chains of layers and sequences of updates\<close>

text \<open>
  \<open>is_chain h a ds b\<close>: starting at address \<open>a\<close>, the parent pointers of the heap lead
  through the diff layers \<open>ds\<close> (top first) to the disk layer \<open>b\<close>.
\<close>

fun is_chain :: "layer list \<Rightarrow> addr \<Rightarrow> addr list \<Rightarrow> addr \<Rightarrow> bool" where
  "is_chain h a [] b = (a = b \<and> (case layer_at h b of Some (DiskLayer dl) \<Rightarrow> True | _ \<Rightarrow> False))"
| "is_chain h a (d # ds) b =
     (a = d \<and> (case layer_at h d of
                  Some (DiffLayer dl) \<Rightarrow> is_chain h (diffLayer.parent dl) ds b
                | _ \<Rightarrow> False))"

definition wf_heap :: "layer list \<Rightarrow> bool" where
  "wf_heap h \<longleftrightarrow> (\<forall>c<length h. \<exists>ds b. is_chain h c ds b)"

fun is_disk :: "layer \<Rightarrow> bool" where
  "is_disk (DiskLayer dl) = True"
| "is_disk (DiffLayer dl) = False"

text \<open>
  What every operation other than \<^verbatim>\<open>Update\<close> does to the heap at most: disk layers
  are added, no object changes its kind, its root or its id, and a parent pointer stays
  or is bound to a disk layer.
\<close>

definition evolves :: "layer list \<Rightarrow> layer list \<Rightarrow> bool" where
  "evolves h h1 \<longleftrightarrow>
     length h \<le> length h1 \<and>
     (\<forall>c<length h. is_disk (h1 ! c) = is_disk (h ! c) \<and> Root_of (h1 ! c) = Root_of (h ! c) \<and>
        ID (h1 ! c) = ID (h ! c) \<and>
        (Parent_of (h1 ! c) = Parent_of (h ! c) \<or>
         (\<exists>p. Parent_of (h1 ! c) = Some p \<and> p < length h1 \<and> is_disk (h1 ! p)))) \<and>
     (\<forall>c. length h \<le> c \<and> c < length h1 \<longrightarrow> is_disk (h1 ! c))"

text \<open>Every entry of the tree is stored under the root of its layer.\<close>

definition keys_ok :: "layerTree \<Rightarrow> layer list \<Rightarrow> bool" where
  "keys_ok t h \<longleftrightarrow> (\<forall>(r, a) \<in> set (layers t). a < length h \<and> Root_of (h ! a) = r)"

text \<open>
  The state history of a node set can be built: \<^verbatim>\<open>newStateHistory\<close> returns, that is,
  no previous value of a tip node makes the decoder, the value assertion or the key
  conversion panic.
\<close>

definition history_ok :: "codec \<Rightarrow> nodes \<Rightarrow> bool" where
  "history_ok c ns = (case newStateHistory c ns of Inl err \<Rightarrow> False | Inr r \<Rightarrow> True)"

definition histories_ok :: "'x ext \<Rightarrow> layer list \<Rightarrow> bool" where
  "histories_ok e h \<longleftrightarrow>
     (\<forall>l\<in>set h. case l of DiffLayer dl \<Rightarrow> history_ok (codec e) (diffLayer.nodes dl) | DiskLayer dl \<Rightarrow> True)"

text \<open>
  The conditions under which a commit cannot fail: the reverse-diff freezer, when there
  is one, accepts the append; when there is a state-history freezer, the state
  history of every diff layer of the heap can be built; the flush of the dirty cache
  succeeds.
\<close>

definition ext_ok :: "'x ext \<Rightarrow> ref option \<Rightarrow> ref option \<Rightarrow> layer list \<Rightarrow> bool" where
  "ext_ok e freezer stateHistory h \<longleftrightarrow>
     (\<forall>fz h1 b lim x. freezer = Some fz \<longrightarrow> fst (storeReverseDiff e fz h1 b lim x) = None) \<and>
     (stateHistory \<noteq> None \<longrightarrow> histories_ok e h) \<and>
     (\<forall>d db cc did force x. fst (dirty_mayFlush e d db cc did force x) = None)"

text \<open>
  A sequence of \<^verbatim>\<open>Update\<close> operations (root, parent root, node set), each through
  \<^verbatim>\<open>layerTree.add\<close>; a rejected one leaves the tree as it is. The tree they start from
  is the one \<^verbatim>\<open>newLayerTree\<close> builds on a disk layer.
\<close>

fun updates :: "'x ext \<Rightarrow> (hash \<times> hash \<times> nodes) list \<Rightarrow> layerTree \<times> 'x world \<Rightarrow> layerTree \<times> 'x world" where
  "updates e [] tw = tw"
| "updates e ((rt, parentRoot, ns) # ops) tw = updates e ops (snd (add e rt parentRoot ns tw))"

definition disk_tree :: "diskLayer \<Rightarrow> 'x \<Rightarrow> layerTree \<times> 'x world" where
  "disk_tree dl x = (\<lparr>layers = [(diskLayer.root dl, 0)]\<rparr>, \<lparr>heap = [DiskLayer dl], xstate = x\<rparr>)"


section \<open>Devices for the layer count of a capped chain\<close>

text \<open>The entries of the second list are entries of the first.\<close>

definition shrinks :: "(hash \<times> addr) list \<Rightarrow> (hash \<times> addr) list \<Rightarrow> bool" where
  "shrinks ls ls1 \<longleftrightarrow> (\<forall>r a. map_of ls1 r = Some a \<longrightarrow> map_of ls r = Some a)"

text \<open>
  A path of the children index: each root has the next one as its only child. The
  removal closure of \<^verbatim>\<open>cap\<close> follows it from the stale disk layer upwards.
\<close>

fun child_path :: "(hash \<times> hash list) list \<Rightarrow> hash list \<Rightarrow> bool" where
  "child_path ch [] = True"
| "child_path ch [x] = True"
| "child_path ch (x # y # rs) = (map_of ch x = Some [y] \<and> child_path ch (y # rs))"

text \<open>The root of the parent of a diff layer, the key under which \<^verbatim>\<open>cap\<close> indexes it.\<close>

definition parent_root :: "layer list \<Rightarrow> addr \<Rightarrow> hash option" where
  "parent_root h a =
     (case layer_at h a of
        Some (DiffLayer dl) \<Rightarrow> map_option Root_of (layer_at h (diffLayer.parent dl))
      | _ \<Rightarrow> None)"

text \<open>
  Every diff layer of the first heap is a diff layer of the second, with the same
  stale flag and a parent of the same root.
\<close>

definition diff_kept :: "layer list \<Rightarrow> layer list \<Rightarrow> bool" where
  "diff_kept h h1 \<longleftrightarrow>
     (\<forall>c<length h. \<forall>dl. h ! c = DiffLayer dl \<longrightarrow>
        (\<exists>dl1. c < length h1 \<and> h1 ! c = DiffLayer dl1 \<and> diffLayer.stale dl1 = diffLayer.stale dl \<and>
           (parent_root h c \<noteq> None \<longrightarrow> parent_root h1 c = parent_root h c)))"

text \<open>
  The tree is a single chain with an entry for each of its layers: the keys of the
  tree are pairwise different, its entries are stored under the roots of their layers,
  they are exactly the diff layers \<open>ds\<close>, from the head down, and the disk layer \<open>b\<close>,
  and there are as many entries as layers, so that no two layers of the chain have
  the same root; no diff layer is stale. A chain whose head has the root of the disk
  layer is not of this kind: the entry of the head has replaced the one of the disk
  layer.
\<close>

definition linear_tree :: "layerTree \<Rightarrow> layer list \<Rightarrow> addr list \<Rightarrow> addr \<Rightarrow> bool" where
  "linear_tree t h ds b \<longleftrightarrow>
     ds \<noteq> [] \<and> is_chain h (hd ds) ds b \<and> keys_ok t h \<and> distinct (map fst (layers t)) \<and>
     set (map snd (layers t)) = set (ds @ [b]) \<and> length (layers t) = length ds + 1 \<and>
     (\<forall>c\<in>set ds. \<not> Stale (h ! c))"

section \<open>A concrete instance of the externals\<close>

text \<open>
  For evaluating the model on concrete inputs: the hash conversions and hex-key
  helpers as go-ethereum has them, a stand-in node decoder under which every blob is a
  leaf with the nibble key \<open>1\<close> that holds the blob, and external stores that are
  empty and accept every write.
\<close>

definition BytesToHash0 :: "bytes \<Rightarrow> hash" where
  "BytesToHash0 b = of_nat (foldl (\<lambda>n x. 256 * n + unat x) 0 b)"

definition HashBytes0 :: "hash \<Rightarrow> bytes" where
  "HashBytes0 h = map (\<lambda>i. ucast (drop_bit (8 * i) h)) (rev [0..<32])"

definition hasTerm0 :: "bytes \<Rightarrow> bool" where
  "hasTerm0 s = (s \<noteq> [] \<and> last s = 16)"

fun decodeNibbles :: "bytes \<Rightarrow> bytes" where
  "decodeNibbles (a # b # r) = (a * 16 + b) # decodeNibbles r"
| "decodeNibbles r = []"

definition hexToKeybytes0 :: "bytes \<Rightarrow> error + bytes" where
  "hexToKeybytes0 hex =
     (let hex1 = (if hasTerm0 hex then butlast hex else hex) in
      if odd (length hex1) then Inl (Panic ''cannot convert hex key of odd length'')
      else Inr (decodeNibbles hex1))"

definition codec0 :: codec where
  "codec0 = \<lparr>BytesToHash = BytesToHash0, HashBytes = HashBytes0, Keccak256 = (\<lambda>b. b),
             mustDecodeNodeUnsafe = (\<lambda>h blob. Inr (ShortNode [1, 16] (Some (ValueNode blob)))),
             mustDecodeNode = (\<lambda>h blob. Inr (ShortNode [1, 16] (Some (ValueNode blob)))),
             expandNode = (\<lambda>h n. n), nodeToBytes = (\<lambda>n. []),
             hasTerm = hasTerm0, hexToKeybytes = hexToKeybytes0\<rparr>"

definition ext0 :: "unit ext" where
  "ext0 = \<lparr>codec = codec0, memoryNodeSize = 56,
           emptyRoot = 0x56e81f171bcc55a6ff8345e692c0f86e5b48e01b996cadc001622fb5e363b421,
           dirty_node = (\<lambda>d ow path h x. Inr None),
           dirty_commit = (\<lambda>d ns x. (d, x)),
           dirty_mayFlush = (\<lambda>d db cc did force x. (None, x)),
           dirty_empty = (\<lambda>d x. True),
           dirty_revert = (\<lambda>d diff x. (None, x)),
           clean_Get = (\<lambda>cc h x. []),
           clean_Set = (\<lambda>cc h blob x. x),
           ReadAccountTrieNode = (\<lambda>db path x. ([], 0)),
           ReadStorageTrieNode = (\<lambda>db ow path x. ([], 0)),
           storeReverseDiff = (\<lambda>fz h b lim x. (None, x)),
           WriteStateHistory = (\<lambda>fz did ai si ad sd x. x),
           writeRevertBatch = (\<lambda>db diff did x. (None, x))\<rparr>"

text \<open>The same externals with a reverse-diff freezer that rejects every append.\<close>

definition ext_failing :: "unit ext" where
  "ext_failing = ext0\<lparr>storeReverseDiff := (\<lambda>fz h b lim x. (Some (ErrOther ''append failed''), x))\<rparr>"

text \<open>A disk layer with root 1 and reverse diff id 1, without a clean cache.\<close>

definition disk1 :: diskLayer where
  "disk1 = \<lparr>diskLayer.root = 1, diskLayer.diffid = 1, diskdb = 0, clean = None, dirty = 0,
            diskLayer.stale = False\<rparr>"

definition world1 :: "unit world" where
  "world1 = \<lparr>heap = [DiskLayer disk1], xstate = ()\<rparr>"

definition tree1 :: layerTree where
  "tree1 = \<lparr>layers = [(1, 0)]\<rparr>"

text \<open>A node set of the account trie that deletes the node at path \<open>[7]\<close>, whose blob was \<open>[9]\<close>.\<close>

definition deletion :: nodes where
  "deletion = [(0, NodeSet.nodes (markDeleted (NewNodeSet 0) [7] [9]))]"

text \<open>Three dirty paths: \<open>[1]\<close> is a prefix of \<open>[1, 2]\<close>.\<close>

definition three_nodes :: nodemap where
  "three_nodes = [([1, 2], \<lparr>hash = 5, size = 1, node = None, prev = []\<rparr>),
                  ([3], \<lparr>hash = 6, size = 1, node = None, prev = []\<rparr>),
                  ([1], \<lparr>hash = 7, size = 1, node = None, prev = []\<rparr>)]"

text \<open>The world after one \<^verbatim>\<open>Update\<close> with that node set on top of the disk layer.\<close>

definition world2 :: "unit world" where
  "world2 = snd (snd (add ext0 2 1 deletion (tree1, world1)))"

text \<open>The first world with its disk layer marked stale.\<close>

definition world1_stale :: "unit world" where
  "world1_stale = \<lparr>heap = [DiskLayer (disk1\<lparr>diskLayer.stale := True\<rparr>)], xstate = ()\<rparr>"

text \<open>
  Three updates on the disk layer: a chain with roots 2, 3, 4, and a fork in which the
  layers with roots 3 and 4 both sit on the layer with root 2.
\<close>

definition chain3 :: "layerTree \<times> unit world" where
  "chain3 = updates ext0 [(2, 1, deletion), (3, 2, []), (4, 3, [])] (disk_tree disk1 ())"

definition fork3 :: "layerTree \<times> unit world" where
  "fork3 = updates ext0 [(2, 1, deletion), (3, 2, []), (4, 2, [])] (disk_tree disk1 ())"

section \<open>Tip nodes are the paths that are no strict prefix of another path\<close>
lemma tipLoop_single: "tipLoop xs [p] tips = ([last (p # xs)], tips @ butlast (adjTips (p # xs)) )"
proof (induction xs arbitrary: p tips)
  case Nil show ?case by simp
next
  case (Cons x xs)
  have ne: "adjTips (x # xs) \<noteq> []" by (induction xs arbitrary: x) auto
  show ?case using ne by (simp add: Cons butlast_append)
qed

lemma adjTips_ne: "xs \<noteq> [] \<Longrightarrow> adjTips xs \<noteq> []"
  by (induction xs rule: adjTips.induct) auto

lemma adjTips_last: "xs \<noteq> [] \<Longrightarrow> last (adjTips xs) = last xs"
  by (induction xs rule: adjTips.induct) (auto simp: adjTips_ne)

lemma tipPaths_adj: "tipPaths ns = adjTips (sort (map fst (AList.clearjunk ns)))"
proof (cases "sort (map fst (AList.clearjunk ns))")
  case Nil then show ?thesis by (simp add: tipPaths_def)
next
  case (Cons x xs)
  have "adjTips (x # xs) \<noteq> []" by (simp add: adjTips_ne)
  then have "butlast (adjTips (x # xs)) @ [last (x # xs)] = adjTips (x # xs)"
    using adjTips_last[of "x # xs"] by (metis append_butlast_last_id list.distinct(1))
  then show ?thesis using Cons by (simp add: tipPaths_def tipLoop_single)
qed

lemma lex_between_prefix:
  fixes p q :: "('a::linorder) list"
  shows "p \<le> q \<Longrightarrow> q \<le> p @ z \<Longrightarrow> prefix p q"
proof (induction p arbitrary: q)
  case Nil then show ?case by simp
next
  case (Cons a p)
  then show ?case by (cases q) (auto split: if_splits)
qed

lemma strict_prefix_less:
  fixes p q :: "('a::linorder) list"
  shows "strict_prefix p q \<Longrightarrow> p < q"
proof (induction p arbitrary: q)
  case Nil then show ?case by (cases q) auto
next
  case (Cons a p)
  then show ?case by (cases q) (auto simp: strict_prefix_def)
qed


lemma adjTips_subset: "set (adjTips xs) \<subseteq> set xs"
  by (induction xs rule: adjTips.induct) auto

lemma adjTips_sorted: "sorted xs \<Longrightarrow> sorted (adjTips xs)"
proof (induction xs rule: adjTips.induct)
  case (3 p q r)
  then show ?case using adjTips_subset[of "q # r"] by (cases "prefix p q") auto
qed auto

lemma adjTips_distinct: "distinct xs \<Longrightarrow> distinct (adjTips xs)"
proof (induction xs rule: adjTips.induct)
  case (3 p q r)
  then show ?case using adjTips_subset[of "q # r"] by (cases "prefix p q") auto
qed auto

lemma adjTips_set: "sorted xs \<Longrightarrow> distinct xs \<Longrightarrow> set (adjTips xs) = tipSet (set xs)"
proof (induction xs rule: adjTips.induct)
  case 1 show ?case by (simp add: tipSet_def)
next
  case (2 p) show ?case by (auto simp: tipSet_def)
next
  case (3 p q r)
  have pq: "p < q" using 3(3,4) by auto
  have IH: "set (adjTips (q # r)) = tipSet (set (q # r))"
    using 3 by (cases "prefix p q") auto
  have tail: "tipSet (set (q # r)) = tipSet (set (p # q # r)) - {p}"
  proof -
    have "\<And>x. x \<in> set (q # r) \<Longrightarrow> \<not> strict_prefix x p"
      using 3(3,4) strict_prefix_less by (metis distinct.simps(2) less_le_not_le list.set_intros(1) order_less_imp_le set_ConsD sorted_simps(2))
    moreover have "p \<notin> set (q # r)" using 3(4) by auto
    ultimately show ?thesis by (auto simp: tipSet_def)
  qed
  have ptip: "p \<in> tipSet (set (p # q # r)) \<longleftrightarrow> \<not> prefix p q"
  proof
    assume "p \<in> tipSet (set (p # q # r))"
    then have "\<not> strict_prefix p q" by (auto simp: tipSet_def)
    then show "\<not> prefix p q" using pq by (auto simp: strict_prefix_def)
  next
    assume np: "\<not> prefix p q"
    have "\<And>y. y \<in> set (p # q # r) \<Longrightarrow> \<not> strict_prefix p y"
    proof
      fix y assume y: "y \<in> set (p # q # r)" and sp: "strict_prefix p y"
      then have "y \<noteq> p" by auto
      then have "q \<le> y" using y 3(3) by auto
      moreover obtain z where "y = p @ z" using sp by (auto simp: strict_prefix_def prefix_def)
      ultimately have "prefix p q" using lex_between_prefix[of p q z] pq by auto
      then show False using np by simp
    qed
    then show "p \<in> tipSet (set (p # q # r))" by (auto simp: tipSet_def)
  qed
  show ?case
  proof (cases "prefix p q")
    case True
    then have "p \<notin> tipSet (set (p # q # r))" using ptip by simp
    then show ?thesis using True IH tail by auto
  next
    case False
    then have "p \<in> tipSet (set (p # q # r))" using ptip by simp
    then show ?thesis using False IH tail by auto
  qed
qed

lemma forEachTip_record: "forEachTip ns record_call tips calls = (None, calls @ map (\<lambda>p. (p, map_of ns p)) tips)"
  by (induction tips arbitrary: calls) (auto simp: record_call_def)

lemma keys_set: "set (sort (map fst (AList.clearjunk ns))) = dom (map_of ns)"
  by (metis dom_map_of_conv_image_fst list.set_map set_sort dom_clearjunk map_of_clearjunk)

text \<open>
  Claim C9. For every map of dirty nodes, \<^verbatim>\<open>forEachTipNode\<close> invokes the callback
  exactly on the tip nodes, the paths of the map that are no strict prefix of another
  path of the map, each once and in ascending lexicographic order of the path bytes:
  run with a callback that records its invocations, it records the list \<open>tipPaths\<close>
  with the nodes stored under these paths; that list is ascending and free of
  duplicates, and its elements are the tip paths.
\<close>

theorem forEachTipNode_tips:
  "forEachTipNode ns record_call [] = (None, map (\<lambda>p. (p, map_of ns p)) (tipPaths ns)) \<and>
   sorted (tipPaths ns) \<and> distinct (tipPaths ns) \<and>
   set (tipPaths ns) = tipSet (dom (map_of ns))"
proof -
  let ?ks = "sort (map fst (AList.clearjunk ns))"
  have d: "distinct ?ks" by (simp add: distinct_clearjunk)
  have s: "sorted ?ks" by simp
  show ?thesis
    using adjTips_set[OF s d] adjTips_sorted[OF s] adjTips_distinct[OF d]
    by (simp add: forEachTipNode_def forEachTip_record tipPaths_adj keys_set del: set_sort)
qed

lemma tipPaths_three: "tipPaths three_nodes = [[1, 2], [3]]"
  by (simp add: tipPaths_def three_nodes_def)

theorem forEachTipNode_tips_witness:
  "tipSet (dom (map_of three_nodes)) = {[1, 2], [3]} \<and>
   map fst (snd (forEachTipNode three_nodes record_call [])) = [[1, 2], [3]]"
  using forEachTipNode_tips[of three_nodes] by (simp add: tipPaths_three comp_def)

section \<open>A stale layer stays stale and answers no lookup\<close>


lemma stale_kept_refl: "stale_kept h h"
  by (simp add: stale_kept_def)

lemma stale_kept_trans: "stale_kept h h1 \<Longrightarrow> stale_kept h1 h2 \<Longrightarrow> stale_kept h h2"
  unfolding stale_kept_def by blast

lemma stale_kept_append: "stale_kept h (h @ ls)"
  by (auto simp: stale_kept_def layer_at_def nth_append split: if_splits)

lemma stale_kept_update: "Stale l \<Longrightarrow> stale_kept h (h[a := l])"
  unfolding stale_kept_def layer_at_def
  by (metis length_list_update nth_list_update_eq nth_list_update_neq option.inject option.simps(3))

lemma stale_kept_update_same: "a < length h \<Longrightarrow> Stale l = Stale (h ! a) \<Longrightarrow> stale_kept h (h[a := l])"
  unfolding stale_kept_def layer_at_def
  by (metis length_list_update nth_list_update_eq nth_list_update_neq option.inject option.simps(3))

lemma stale_kept_set_parent: "stale_kept h (set_parent h a p)"
  by (auto simp: set_parent_def stale_kept_refl layer_at_def intro!: stale_kept_update_same split: option.splits layer.splits if_splits)

lemma commit_stale_kept: "commit e fz sh lim a b force w = (r, w1) \<Longrightarrow> stale_kept (heap w) (heap w1)"
  unfolding commit_def
  by (auto simp: stale_kept_refl Let_def split: option.splits layer.splits prod.splits if_splits
      intro!: stale_kept_update stale_kept_trans[OF stale_kept_update stale_kept_append])

lemma revert_stale_kept: "revert e a diff did w = (r, w1) \<Longrightarrow> stale_kept (heap w) (heap w1)"
  unfolding revert_def
  by (auto simp: stale_kept_refl Let_def split: option.splits layer.splits prod.splits if_splits
      intro!: stale_kept_update stale_kept_trans[OF stale_kept_update stale_kept_append])

lemma diffToDisk_stale_kept: "diffToDisk e fz sh lim b force w = (r, w1) \<Longrightarrow> stale_kept (heap w) (heap w1)"
  unfolding diffToDisk_def
  by (auto simp: stale_kept_refl split: option.splits layer.splits dest: commit_stale_kept)

lemma persist_stale_kept:
  "persist e fuel fz sh lim force a w = Some (r, w1) \<Longrightarrow> stale_kept (heap w) (heap w1)"
proof (induction fuel arbitrary: a w r w1)
  case 0 then show ?case by simp
next
  case (Suc fuel)
  show ?case
  proof (cases "layer_at (heap w) a")
    case None then show ?thesis using Suc.prems by (auto simp: stale_kept_refl)
  next
    case (Some l)
    show ?thesis
    proof (cases l)
      case (DiskLayer d) then show ?thesis using Suc.prems Some by (auto simp: stale_kept_refl)
    next
      case (DiffLayer dl)
      show ?thesis
      proof (cases "\<exists>pl. layer_at (heap w) (diffLayer.parent dl) = Some (DiffLayer pl)")
        case False
        then have "diffToDisk e fz sh lim a force w = (r, w1)"
          using Suc.prems Some DiffLayer by (auto split: option.splits layer.splits)
        then show ?thesis by (rule diffToDisk_stale_kept)
      next
        case True
        then obtain pl where pl: "layer_at (heap w) (diffLayer.parent dl) = Some (DiffLayer pl)" by blast
        show ?thesis
        proof (cases "persist e fuel fz sh lim force (diffLayer.parent dl) w")
          case None then show ?thesis using Suc.prems Some DiffLayer pl by simp
        next
          case (Some res)
          obtain r0 w0 where res: "res = (r0, w0)" by (cases res)
          have k0: "stale_kept (heap w) (heap w0)" using Suc.IH Some res by blast
          show ?thesis
          proof (cases r0)
            case (Inl err)
            then show ?thesis using Suc.prems \<open>layer_at (heap w) a = Some l\<close> DiffLayer pl Some res k0 by simp
          next
            case (Inr result)
            then have "diffToDisk e fz sh lim a force (w0\<lparr>heap := set_parent (heap w0) a result\<rparr>) = (r, w1)"
              using Suc.prems \<open>layer_at (heap w) a = Some l\<close> DiffLayer pl Some res by simp
            then have "stale_kept (set_parent (heap w0) a result) (heap w1)"
              using diffToDisk_stale_kept by fastforce
            then show ?thesis using k0 stale_kept_set_parent stale_kept_trans by blast
          qed
        qed
      qed
    qed
  qed
qed

lemma MarkStale_stale_kept: "MarkStale a w = Inr w1 \<Longrightarrow> stale_kept (heap w) (heap w1)"
  unfolding MarkStale_def
  by (auto split: option.splits layer.splits if_splits intro!: stale_kept_update)

lemma node_heap: "snapshot_node e fuel a ow path h w = Some (r, w1) \<Longrightarrow> heap w1 = heap w"
  by (induction fuel arbitrary: a) (auto split: option.splits layer.splits if_splits prod.splits)

lemma add_stale_kept: "add e rt prt ns (t, w) = (err, t1, w1) \<Longrightarrow> stale_kept (heap w) (heap w1)"
  unfolding add_def Update_def
  by (auto simp: Let_def stale_kept_refl stale_kept_append split: option.splits if_splits)

lemma cap_stale_kept: "cap e fuel rt k fz sh lim (t, w) = Some (err, t1, w1) \<Longrightarrow> stale_kept (heap w) (heap w1)"
  unfolding cap_def
  by (auto simp: Let_def stale_kept_refl split: option.splits layer.splits if_splits sum.splits prod.splits
      dest!: persist_stale_kept intro: stale_kept_trans[OF _ stale_kept_set_parent])

lemma step_stale_kept: "step e tw tw1 \<Longrightarrow> stale_kept (heap (snd tw)) (heap (snd tw1))"
proof (induction rule: step.induct)
  case (step_add rt parentRoot ns tw err tw1)
  then show ?case using add_stale_kept by (cases tw; cases tw1) fastforce
next
  case (step_cap fuel rt nlayers freezer stateHistory statelimit tw err tw1)
  then show ?case using cap_stale_kept by (cases tw; cases tw1) fastforce
qed (auto simp: stale_kept_refl dest: persist_stale_kept commit_stale_kept revert_stale_kept MarkStale_stale_kept node_heap)

lemma steps_stale_kept: "(step e)\<^sup>*\<^sup>* tw tw1 \<Longrightarrow> stale_kept (heap (snd tw)) (heap (snd tw1))"
  by (induction rule: rtranclp_induct) (auto simp: stale_kept_refl intro: stale_kept_trans step_stale_kept)

lemma stale_node: "layer_at (heap w) a = Some l \<Longrightarrow> Stale l \<Longrightarrow>
   snapshot_node e (Suc fuel) a ow path h w = Some (Inl ErrSnapshotStale, w)"
  by (cases l) (auto simp: diskLayer_node_def)

text \<open>
  Claim C2. Once the stale flag of a layer (diff or disk) is set, every later
  \<^verbatim>\<open>node\<close>, \<^verbatim>\<open>Node\<close> and \<^verbatim>\<open>NodeBlob\<close> call on that layer, after any sequence of
  operations, returns the snapshot-stale error, and the layer cannot become stale a
  second time: \<^verbatim>\<open>MarkStale\<close> on it panics.
\<close>

theorem stale_layer_lookup:
  assumes "(step e)\<^sup>*\<^sup>* (t, w) (t1, w1)" and "layer_at (heap w) a = Some l" and "Stale l"
  shows "snapshot_node e (Suc fuel) a ow path h w1 = Some (Inl ErrSnapshotStale, w1) \<and>
         Node e (Suc fuel) a ow path h w1 = Some (Inl ErrSnapshotStale, w1) \<and>
         NodeBlob e (Suc fuel) a ow path h w1 = Some (Inl ErrSnapshotStale, w1) \<and>
         (\<exists>m. MarkStale a w1 = Inl (Panic m))"
proof -
  have "stale_kept (heap w) (heap w1)" using steps_stale_kept[OF assms(1)] by simp
  then obtain l1 where l1: "layer_at (heap w1) a = Some l1" "Stale l1"
    using assms(2,3) unfolding stale_kept_def by blast
  have n: "snapshot_node e (Suc fuel) a ow path h w1 = Some (Inl ErrSnapshotStale, w1)"
    using l1 by (rule stale_node)
  have m: "\<exists>m. MarkStale a w1 = Inl (Panic m)"
    using l1 by (cases l1) (auto simp: MarkStale_def)
  show ?thesis using n m by (simp add: Node_def NodeBlob_def)
qed


theorem stale_layer_lookup_witness:
  "MarkStale 0 world1 = Inr world1_stale \<and>
   layer_at (heap world1_stale) 0 = Some (DiskLayer (disk1\<lparr>diskLayer.stale := True\<rparr>)) \<and>
   Stale (DiskLayer (disk1\<lparr>diskLayer.stale := True\<rparr>)) \<and>
   (step ext0)\<^sup>*\<^sup>* (tree1, world1_stale) (snd (add ext0 2 1 deletion (tree1, world1_stale))) \<and>
   NodeBlob ext0 (Suc 0) 0 0 [7] 0 (snd (snd (add ext0 2 1 deletion (tree1, world1_stale))))
     = Some (Inl ErrSnapshotStale, snd (snd (add ext0 2 1 deletion (tree1, world1_stale))))"
proof -
  obtain t1 w1 where a: "snd (add ext0 2 1 deletion (tree1, world1_stale)) = (t1, w1)"
    by (cases "snd (add ext0 2 1 deletion (tree1, world1_stale))")
  have m: "MarkStale 0 world1 = Inr world1_stale"
    by (simp add: MarkStale_def world1_def world1_stale_def layer_at_def disk1_def)
  have h: "layer_at (heap world1_stale) 0 = Some (DiskLayer (disk1\<lparr>diskLayer.stale := True\<rparr>))"
    by (simp add: world1_stale_def layer_at_def)
  have s: "Stale (DiskLayer (disk1\<lparr>diskLayer.stale := True\<rparr>))" by simp
  have "step ext0 (tree1, world1_stale) (snd (add ext0 2 1 deletion (tree1, world1_stale)))"
    by (rule step_add[of ext0 2 1 deletion _ "fst (add ext0 2 1 deletion (tree1, world1_stale))"]) simp
  then have r: "(step ext0)\<^sup>*\<^sup>* (tree1, world1_stale) (t1, w1)" using a by auto
  show ?thesis using m h s r stale_layer_lookup[OF r h s, of 0 0 "[7]" 0] a by simp
qed

section \<open>Reverting the disk layer\<close>

text \<open>
  Claim C4, amended. \<^verbatim>\<open>diskLayer.revert(diff, diffid)\<close> succeeds only when the root of
  the reverse diff is the root of the layer, \<open>diffid\<close> is the id of the layer and
  \<open>diffid > 0\<close>. A root or an id that does not match fails with the
  unmatched-reverse-diff error, a zero id (root and id matching) with the
  state-unrecoverable error, and in these three cases the world is left as it was: the
  layer is not marked stale and no disk layer is created.
\<close>

theorem revert_preconditions:
  assumes "layer_at (heap w) a = Some (DiskLayer dl)"
  shows "(Root diff \<noteq> diskLayer.root dl \<or> did \<noteq> diskLayer.diffid dl \<longrightarrow>
            revert e a diff did w = (Inl ErrUnmatchedReverseDiff, w)) \<and>
         (Root diff = diskLayer.root dl \<and> did = diskLayer.diffid dl \<and> did = 0 \<longrightarrow>
            revert e a diff did w = (Inl ErrStateUnrecoverable, w)) \<and>
         (\<forall>n w1. revert e a diff did w = (Inr n, w1) \<longrightarrow>
            Root diff = diskLayer.root dl \<and> did = diskLayer.diffid dl \<and> 0 < did)"
  using assms unfolding revert_def
  by (auto simp: Let_def word_greater_zero_iff split: prod.splits option.splits if_splits)

theorem revert_preconditions_witness:
  "layer_at (heap world1) 0 = Some (DiskLayer disk1) \<and>
   revert ext0 0 \<lparr>Version = 0, Parent = 0, Root = 2, States = []\<rparr> 1 world1 = (Inl ErrUnmatchedReverseDiff, world1) \<and>
   revert ext0 0 \<lparr>Version = 0, Parent = 0, Root = 1, States = []\<rparr> 2 world1 = (Inl ErrUnmatchedReverseDiff, world1) \<and>
   fst (revert ext0 0 \<lparr>Version = 0, Parent = 0, Root = 1, States = []\<rparr> 1 world1) = Inr 1"
proof -
  have h: "layer_at (heap world1) 0 = Some (DiskLayer disk1)"
    by (simp add: world1_def layer_at_def)
  have s: "fst (revert ext0 0 \<lparr>Version = 0, Parent = 0, Root = 1, States = []\<rparr> 1 world1) = Inr 1"
    by (simp add: revert_def world1_def layer_at_def disk1_def ext0_def)
  show ?thesis
    using h s revert_preconditions[OF h, of "\<lparr>Version = 0, Parent = 0, Root = 2, States = []\<rparr>" 1 ext0]
      revert_preconditions[OF h, of "\<lparr>Version = 0, Parent = 0, Root = 1, States = []\<rparr>" 2 ext0]
    by (simp add: disk1_def)
qed

text \<open>
  The claim as stated fails: a reverse diff with root 2 on the layer with root 1 is
  refused with the unmatched-reverse-diff error, not the state-unrecoverable one.
\<close>

theorem revert_error_kind_counterexample:
  "fst (revert ext0 0 \<lparr>Version = 0, Parent = 0, Root = 2, States = []\<rparr> 1 world1) \<noteq> Inl ErrStateUnrecoverable \<and>
   fst (revert ext0 0 \<lparr>Version = 0, Parent = 0, Root = 2, States = []\<rparr> 1 world1) = Inl ErrUnmatchedReverseDiff \<and>
   \<not> (Root \<lparr>Version = 0, Parent = 0, Root = 2, States = []\<rparr> = diskLayer.root disk1)"
  by (simp add: revert_def world1_def layer_at_def disk1_def)

section \<open>A failed append during commit\<close>

lemma gatherStates_error: "gatherStates c ns leaves = Inl err \<Longrightarrow> is_panic (Some err)"
proof (induction ns arbitrary: leaves)
  case Nil then show ?case by simp
next
  case (Cons p ns)
  obtain ow sub where p: "p = (ow, sub)" by (cases p)
  obtain er els where r: "resolvePrevLeaves c sub collectState [] = (er, els)"
    by (cases "resolvePrevLeaves c sub collectState []")
  show ?case
  proof (cases "is_panic er")
    case True
    then obtain x where "er = Some x" by (cases er) auto
    then show ?thesis using Cons.prems p r True by simp
  next
    case False
    then show ?thesis using Cons p r by simp
  qed
qed

lemma storeStateHistory_error:
  "storeStateHistory e sh dl x = (Some err, x1) \<Longrightarrow> is_panic (Some err) \<and> x1 = x"
  unfolding storeStateHistory_def newStateHistory_def
  by (auto split: sum.splits prod.splits dest: gatherStates_error)

lemma world2_eq: "world2 = \<lparr>heap = [DiskLayer disk1, DiffLayer (newDiffLayer ext0 0 2 2 deletion)], xstate = ()\<rparr>"
  by (simp add: world2_def add_def convertEmpty_def get_def tree1_def world1_def layer_at_def Update_def disk1_def ext0_def)

text \<open>
  Claim C5, amended. When the reverse-diff append fails during
  \<^verbatim>\<open>diskLayer.commit\<close>, the error is returned to the caller and nothing is committed:
  no disk layer is created, the dirty cache is neither extended nor flushed, and the
  external state is the one the failed append left. The old disk layer, however, is
  stale already, since commit sets the flag before it appends. A state-history append
  cannot report a failure: \<^verbatim>\<open>storeStateHistory\<close> ends with an error only when building
  the record panics, and then nothing was written.
\<close>

theorem commit_append_failure:
  assumes "layer_at (heap w) a = Some (DiskLayer dl)"
    and "layer_at (heap w) b = Some (DiffLayer bottom)"
    and "storeReverseDiff e fz ((heap w)[a := DiskLayer (dl\<lparr>diskLayer.stale := True\<rparr>)]) b statelimit (xstate w) = (Some err, x1)"
  shows "commit e (Some fz) stateHistory statelimit a b force w =
           (Inl err, \<lparr>heap = (heap w)[a := DiskLayer (dl\<lparr>diskLayer.stale := True\<rparr>)], xstate = x1\<rparr>) \<and>
         (\<forall>sh x err2 x2. storeStateHistory e sh bottom x = (Some err2, x2) \<longrightarrow> is_panic (Some err2) \<and> x2 = x)"
  using assms storeStateHistory_error[of e _ bottom] unfolding commit_def
  by (simp add: Let_def)

theorem commit_append_failure_witness:
  "layer_at (heap world2) 0 = Some (DiskLayer disk1) \<and>
   layer_at (heap world2) 1 = Some (DiffLayer (newDiffLayer ext0 0 2 2 deletion)) \<and>
   commit ext_failing (Some 0) None 0 0 1 False world2 =
     (Inl (ErrOther ''append failed''),
      \<lparr>heap = [DiskLayer (disk1\<lparr>diskLayer.stale := True\<rparr>), DiffLayer (newDiffLayer ext0 0 2 2 deletion)], xstate = ()\<rparr>)"
proof -
  have h0: "layer_at (heap world2) 0 = Some (DiskLayer disk1)"
    by (simp add: world2_eq layer_at_def)
  have h1: "layer_at (heap world2) 1 = Some (DiffLayer (newDiffLayer ext0 0 2 2 deletion))"
    by (simp add: world2_eq layer_at_def)
  have f: "storeReverseDiff ext_failing 0 ((heap world2)[0 := DiskLayer (disk1\<lparr>diskLayer.stale := True\<rparr>)]) 1 0 (xstate world2)
             = (Some (ErrOther ''append failed''), ())"
    by (simp add: ext_failing_def)
  show ?thesis using h0 h1 commit_append_failure[OF h0 h1 f, of None False]
    by (simp add: world2_eq)
qed

text \<open>
  The claim as stated fails: after the failed append the old disk layer, live before,
  is stale.
\<close>

theorem commit_failure_stale_counterexample:
  "fst (commit ext_failing (Some 0) None 0 0 1 False world2) = Inl (ErrOther ''append failed'') \<and>
   \<not> Stale (heap world2 ! 0) \<and>
   Stale (heap (snd (commit ext_failing (Some 0) None 0 0 1 False world2)) ! 0)"
  by (simp add: world2_eq commit_def layer_at_def ext_failing_def disk1_def)

section \<open>Looking up a node that is not there\<close>

text \<open>
  Claim C6. The code does not meet it, nor the comment of the method, by which no error
  is returned if the node is not found. When a lookup on a live disk layer misses the
  dirty cache and the clean cache and reads an empty blob from the key-value store,
  \<^verbatim>\<open>diskLayer.node\<close> compares the hash the store reports for the entry with the
  requested hash before it tests the blob for emptiness: it returns \<open>(nil, nil)\<close> when
  the two are equal and the unexpected-node error otherwise.
\<close>

theorem diskLayer_node_absent:
  assumes "\<not> diskLayer.stale dl"
    and "dirty_node e (dirty dl) ow path h x = Inr None"
    and "clean dl = None \<or> (\<exists>cc. clean dl = Some cc \<and> clean_Get e cc h x = [])"
    and "(if ow = 0 then ReadAccountTrieNode e (diskdb dl) path x
          else ReadStorageTrieNode e (diskdb dl) ow path x) = ([], nHash)"
  shows "diskLayer_node e dl ow path h x =
           (if nHash = h then (Inr None, x) else (Inl ErrUnexpectedNode, x))"
  using assms unfolding diskLayer_node_def
  by (auto simp: Let_def split: option.splits)

theorem diskLayer_node_absent_witness:
  "\<not> diskLayer.stale disk1 \<and> dirty_node ext0 (dirty disk1) 0 [8] 0 () = Inr None \<and>
   clean disk1 = None \<and> ReadAccountTrieNode ext0 (diskdb disk1) [8] () = ([], 0) \<and>
   diskLayer_node ext0 disk1 0 [8] 0 () = (Inr None, ())"
proof -
  have a: "\<not> diskLayer.stale disk1" by (simp add: disk1_def)
  have b: "dirty_node ext0 (dirty disk1) 0 [8] 0 () = Inr None" by (simp add: ext0_def)
  have c: "clean disk1 = None \<or> (\<exists>cc. clean disk1 = Some cc \<and> clean_Get ext0 cc 0 () = [])"
    by (simp add: disk1_def)
  have d: "(if (0::hash) = 0 then ReadAccountTrieNode ext0 (diskdb disk1) [8] ()
          else ReadStorageTrieNode ext0 (diskdb disk1) 0 [8] ()) = ([], 0)" by (simp add: ext0_def)
  show ?thesis using diskLayer_node_absent[OF a b c d] a b
    by (simp add: disk1_def ext0_def)
qed

text \<open>
  The failing input: on the layer over empty stores, the node at path \<open>[8]\<close> is in no
  cache and not in the store, and the lookup with hash 1 returns the unexpected-node
  error where \<open>(nil, nil)\<close> is due.
\<close>

theorem diskLayer_node_absent_counterexample:
  "dirty_node ext0 (dirty disk1) 0 [8] 1 () = Inr None \<and> clean disk1 = None \<and>
   fst (ReadAccountTrieNode ext0 (diskdb disk1) [8] ()) = [] \<and>
   diskLayer_node ext0 disk1 0 [8] 1 () = (Inl ErrUnexpectedNode, ())"
  by (simp add: diskLayer_node_def disk1_def ext0_def)

text \<open>
  The failure does not depend on what the store reports: the accessor is not given the
  requested hash, so whatever hash it reports for the missing entry, the lookup with
  any other hash is an error.
\<close>

lemma diskLayer_node_absent_some_hash_fails:
  assumes "\<not> diskLayer.stale dl" and "\<forall>h. dirty_node e (dirty dl) 0 path h x = Inr None"
    and "clean dl = None" and "fst (ReadAccountTrieNode e (diskdb dl) path x) = []"
  shows "\<exists>h. diskLayer_node e dl 0 path h x = (Inl ErrUnexpectedNode, x)"
proof -
  obtain nHash where r: "ReadAccountTrieNode e (diskdb dl) path x = ([], nHash)"
    using assms(4) by (cases "ReadAccountTrieNode e (diskdb dl) path x") auto
  have "diskLayer_node e dl 0 path (nHash + 1) x = (Inl ErrUnexpectedNode, x)"
    using assms(1,2,3) r unfolding diskLayer_node_def by (simp add: Let_def)
  then show ?thesis ..
qed

section \<open>Looking up a node a diff layer holds\<close>

text \<open>
  Claim C7, amended. On a live diff layer whose own node map has an entry at the
  requested owner and path, the lookup checks the hash: on a mismatch it fails with the
  unexpected-node error, otherwise it returns the unwrapped memory node. A deletion
  tombstone (hash zero) is no exception: asked with a non-zero hash the lookup fails,
  asked with the zero hash it returns the tombstone node itself, never \<open>(nil, nil)\<close>.
\<close>

theorem diffLayer_node_local:
  assumes "layer_at (heap w) a = Some (DiffLayer dl)"
    and "\<not> diffLayer.stale dl"
    and "map_of (diffLayer.nodes dl) ow = Some sub"
    and "map_of sub path = Some n"
  shows "snapshot_node e (Suc fuel) a ow path h w =
           Some (if memoryNode.hash n = h then Inr (Some (unwrap n)) else Inl ErrUnexpectedNode, w) \<and>
         (isDeleted n \<longrightarrow> snapshot_node e (Suc fuel) a ow path h w \<noteq> Some (Inr None, w))"
  using assms by auto

theorem diffLayer_node_local_witness:
  "layer_at (heap world2) 1 = Some (DiffLayer (newDiffLayer ext0 0 2 2 deletion)) \<and>
   \<not> diffLayer.stale (newDiffLayer ext0 0 2 2 deletion) \<and>
   map_of (diffLayer.nodes (newDiffLayer ext0 0 2 2 deletion)) 0 = Some [([7], \<lparr>hash = 0, size = 0, node = None, prev = [9]\<rparr>)] \<and>
   isDeleted \<lparr>hash = 0, size = 0, node = None, prev = [9]\<rparr> \<and>
   snapshot_node ext0 (Suc 0) 1 0 [7] 5 world2 = Some (Inl ErrUnexpectedNode, world2)"
proof -
  let ?dl = "newDiffLayer ext0 0 2 2 deletion"
  let ?n = "\<lparr>hash = 0, size = 0, node = None, prev = [9]\<rparr>"
  have h1: "layer_at (heap world2) 1 = Some (DiffLayer ?dl)"
    by (simp add: world2_eq layer_at_def)
  have s: "\<not> diffLayer.stale ?dl" by (simp add: newDiffLayer_def)
  have m: "map_of (diffLayer.nodes ?dl) 0 = Some [([7], ?n)]"
    by (simp add: newDiffLayer_def deletion_def markDeleted_def NewNodeSet_def)
  have p: "map_of [([7::byte], ?n)] [7] = Some ?n" by simp
  show ?thesis using h1 s m diffLayer_node_local[OF h1 s m p, of ext0 0 5]
    by (simp add: isDeleted_def)
qed

text \<open>
  The claim as stated fails: the diff layer holds a tombstone at path \<open>[7]\<close>; the
  lookup with the zero hash returns the tombstone node, not \<open>(nil, nil)\<close>, and the
  lookup with hash 5 is an error.
\<close>

theorem tombstone_lookup_counterexample:
  "map_of deletion 0 = Some [([7], \<lparr>hash = 0, size = 0, node = None, prev = [9]\<rparr>)] \<and>
   snapshot_node ext0 (Suc 0) 1 0 [7] 0 world2 = Some (Inr (Some \<lparr>hash = 0, size = 0, node = None\<rparr>), world2) \<and>
   snapshot_node ext0 (Suc 0) 1 0 [7] 0 world2 \<noteq> Some (Inr None, world2) \<and>
   snapshot_node ext0 (Suc 0) 1 0 [7] 5 world2 = Some (Inl ErrUnexpectedNode, world2)"
  by (simp add: world2_eq layer_at_def newDiffLayer_def deletion_def markDeleted_def NewNodeSet_def
      unwrap_def memoryNode.truncate_def)

section \<open>Capping at the disk layer\<close>

text \<open>
  Claim C8, amended. \<^verbatim>\<open>cap\<close> on a root that resolves to the disk layer changes
  nothing, neither the tree nor the world, but it does not succeed: it returns the
  error that the snapshot is the disk layer, whatever the number of layers asked for.
\<close>

theorem cap_disk_root:
  assumes "get e t (convertEmpty e rt) = Some a"
    and "layer_at (heap w) a = Some (DiskLayer dl)"
  shows "cap e fuel rt nlayers freezer stateHistory statelimit (t, w) =
           Some (Some (ErrOther ''triedb snapshot is disk layer''), t, w)"
  using assms by (simp add: cap_def)

theorem cap_disk_root_witness:
  "get ext0 tree1 (convertEmpty ext0 1) = Some 0 \<and>
   layer_at (heap world1) 0 = Some (DiskLayer disk1) \<and>
   cap ext0 1 1 1 None None 0 (tree1, world1) =
     Some (Some (ErrOther ''triedb snapshot is disk layer''), tree1, world1)"
proof -
  have g: "get ext0 tree1 (convertEmpty ext0 1) = Some 0"
    by (simp add: get_def convertEmpty_def tree1_def)
  have h: "layer_at (heap world1) 0 = Some (DiskLayer disk1)"
    by (simp add: world1_def layer_at_def)
  show ?thesis using g h cap_disk_root[OF g h] by simp
qed

text \<open>The claim as stated fails: the call on the root of the disk layer is not a success.\<close>

theorem cap_disk_root_counterexample:
  "get ext0 tree1 1 = Some 0 \<and> layer_at (heap world1) 0 = Some (DiskLayer disk1) \<and>
   cap ext0 1 1 1 None None 0 (tree1, world1) \<noteq> Some (None, tree1, world1) \<and>
   cap ext0 1 1 0 None None 0 (tree1, world1) \<noteq> Some (None, tree1, world1)"
  by (simp add: cap_def get_def convertEmpty_def tree1_def world1_def layer_at_def)

section \<open>The first revision of the state history can index out of range\<close>

text \<open>
  Claim C10. The first \<^verbatim>\<open>newStateHistory\<close> is not total: on a mutation set that holds
  only the account trie, as soon as the first previous leaf of the account trie has a
  key whose hash is not the zero hash (so that the owner of that hash has no leaves),
  \<^verbatim>\<open>leaves[account][i]\<close> is read at \<open>i = 0\<close> in an empty list, and the function
  panics with an index out of range.
\<close>

theorem newStateHistory1_index_panic:
  assumes "resolvePrevLeaves c sub collectElement [] = (err, el # els)"
    and "\<not> is_panic err"
    and "BytesToHash c (elementHistory.Key el) \<noteq> 0"
  shows "newStateHistory1 c [(0, sub)] = Inl (Panic ''index out of range'')"
  using assms by (simp add: newStateHistory1_def)

theorem newStateHistory1_index_panic_witness:
  "resolvePrevLeaves codec0 [([7], \<lparr>hash = 0, size = 0, node = None, prev = [9]\<rparr>)] collectElement []
     = (None, [\<lparr>elementHistory.Key = [113], elementHistory.Prev = [9]\<rparr>]) \<and>
   \<not> is_panic None \<and> BytesToHash codec0 (elementHistory.Key \<lparr>elementHistory.Key = [113], elementHistory.Prev = [9]\<rparr>) \<noteq> 0 \<and>
   newStateHistory1 codec0 deletion = Inl (Panic ''index out of range'')"
proof -
  have r: "resolvePrevLeaves codec0 [([7], \<lparr>hash = 0, size = 0, node = None, prev = [9]\<rparr>)] collectElement []
     = (None, [\<lparr>elementHistory.Key = [113], elementHistory.Prev = [9]\<rparr>])"
    by (simp add: resolvePrevLeaves_def forEachTipNode_def tipPaths_def codec0_def hasTerm0_def
        hexToKeybytes0_def collectElement_def)
  have p: "\<not> is_panic None" by simp
  have b: "BytesToHash codec0 (elementHistory.Key \<lparr>elementHistory.Key = [113], elementHistory.Prev = [9]\<rparr>) \<noteq> 0"
    by (simp add: codec0_def BytesToHash0_def)
  have d: "deletion = [(0, [([7], \<lparr>hash = 0, size = 0, node = None, prev = [9]\<rparr>)])]"
    by (simp add: deletion_def markDeleted_def NewNodeSet_def)
  show ?thesis using r p b newStateHistory1_index_panic[OF r p b] by (simp add: d)
qed

section \<open>Chains\<close>

lemma chain_Nil_iff: "is_chain h a [] b \<longleftrightarrow> a = b \<and> a < length h \<and> is_disk (h ! a)"
  by (auto simp: layer_at_def split: layer.splits)

lemma chain_Cons_iff:
  "is_chain h a (d # ds) b \<longleftrightarrow>
     a = d \<and> a < length h \<and> (\<exists>dl. h ! a = DiffLayer dl \<and> is_chain h (diffLayer.parent dl) ds b)"
  by (auto simp: layer_at_def split: layer.splits)

declare is_chain.simps [simp del]

lemma chain_valid: "is_chain h a ds b \<Longrightarrow> a < length h"
  by (cases ds) (auto simp: chain_Nil_iff chain_Cons_iff)

lemma chain_unique: "is_chain h a ds b \<Longrightarrow> is_chain h a ds1 b1 \<Longrightarrow> ds = ds1 \<and> b = b1"
proof (induction ds arbitrary: a ds1)
  case Nil
  then show ?case by (cases ds1) (auto simp: chain_Nil_iff chain_Cons_iff)
next
  case (Cons d ds)
  then show ?case by (cases ds1) (auto simp: chain_Nil_iff chain_Cons_iff)
qed

lemma chain_suffix:
  "is_chain h a ds b \<Longrightarrow> c \<in> set ds \<Longrightarrow> \<exists>ds1 ds2. ds = ds1 @ c # ds2 \<and> is_chain h c (c # ds2) b"
proof (induction ds arbitrary: a)
  case Nil then show ?case by simp
next
  case (Cons d ds)
  show ?case
  proof (cases "c = d")
    case True
    then show ?thesis using Cons.prems(1) by (intro exI[of _ "[]"] exI[of _ ds]) (auto simp: chain_Cons_iff)
  next
    case False
    then have "c \<in> set ds" using Cons.prems(2) by simp
    moreover obtain dl :: diffLayer where "is_chain h (diffLayer.parent dl) ds b"
      using Cons.prems(1) by (auto simp: chain_Cons_iff)
    ultimately obtain ds1 ds2 where "ds = ds1 @ c # ds2" "is_chain h c (c # ds2) b"
      using Cons.IH by blast
    then show ?thesis by (intro exI[of _ "d # ds1"] exI[of _ ds2]) simp
  qed
qed

lemma chain_distinct: "is_chain h a ds b \<Longrightarrow> distinct ds"
proof (induction ds arbitrary: a)
  case Nil then show ?case by simp
next
  case (Cons d ds)
  obtain dl :: diffLayer where dl: "is_chain h (diffLayer.parent dl) ds b"
    using Cons.prems by (auto simp: chain_Cons_iff)
  have "d \<notin> set ds"
  proof
    assume "d \<in> set ds"
    then obtain ds1 ds2 where s: "ds = ds1 @ d # ds2" "is_chain h d (d # ds2) b"
      using chain_suffix[OF dl] by blast
    have "is_chain h d (d # ds) b" using Cons.prems by (auto simp: chain_Cons_iff)
    then have "d # ds = d # ds2" using chain_unique s(2) by blast
    then show False using s(1) by simp
  qed
  then show ?case using Cons.IH[OF dl] by simp
qed

lemma chain_disk_notin: "is_chain h a ds b \<Longrightarrow> b \<notin> set ds"
proof
  assume c: "is_chain h a ds b" and "b \<in> set ds"
  then obtain ds2 where "is_chain h b (b # ds2) b" using chain_suffix by blast
  moreover have "b < length h \<and> is_disk (h ! b)" using c
    by (induction ds arbitrary: a) (auto simp: chain_Nil_iff chain_Cons_iff)
  ultimately show False by (auto simp: chain_Cons_iff)
qed

lemma chain_set_bound: "is_chain h a ds b \<Longrightarrow> set ds \<subseteq> {..<length h} \<and> b < length h"
  by (induction ds arbitrary: a) (auto simp: chain_Nil_iff chain_Cons_iff)

lemma chain_length: assumes "is_chain h a ds b" shows "length ds < length h"
proof -
  have "distinct (b # ds)" using chain_distinct[OF assms] chain_disk_notin[OF assms] by simp
  moreover have "set (b # ds) \<subseteq> {..<length h}" using chain_set_bound[OF assms] by auto
  ultimately have "length (b # ds) \<le> card {..<length h}"
    by (metis card_mono distinct_card finite_lessThan)
  then show ?thesis by simp
qed

lemma chain_frame:
  "is_chain h a ds b \<Longrightarrow> length h \<le> length h1 \<Longrightarrow> (\<forall>c\<in>set ds \<union> {b}. h1 ! c = h ! c) \<Longrightarrow> is_chain h1 a ds b"
proof (induction ds arbitrary: a)
  case Nil then show ?case by (auto simp: chain_Nil_iff)
next
  case (Cons d ds)
  then show ?case by (auto simp: chain_Cons_iff)
qed

section \<open>Evolution of the heap\<close>

lemma evolves_refl: "evolves h h"
  by (auto simp: evolves_def)

lemma evolves_trans: assumes "evolves h h1" "evolves h1 h2" shows "evolves h h2"
  unfolding evolves_def
proof (intro conjI allI impI)
  show "length h \<le> length h2" using assms by (auto simp: evolves_def)
next
  fix c assume c: "length h \<le> c \<and> c < length h2"
  show "is_disk (h2 ! c)"
  proof (cases "c < length h1")
    case True
    then have "is_disk (h1 ! c)" using assms(1) c by (auto simp: evolves_def)
    then show ?thesis using assms(2) True by (auto simp: evolves_def)
  next
    case False
    then show ?thesis using assms(2) c by (auto simp: evolves_def)
  qed
next
  fix c assume c: "c < length h"
  then have c1: "c < length h1" using assms(1) by (auto simp: evolves_def)
  show "is_disk (h2 ! c) = is_disk (h ! c)" using assms c c1 by (auto simp: evolves_def)
  show "Root_of (h2 ! c) = Root_of (h ! c)" using assms c c1 by (auto simp: evolves_def)
  show "ID (h2 ! c) = ID (h ! c)" using assms c c1 by (auto simp: evolves_def)
  show "Parent_of (h2 ! c) = Parent_of (h ! c) \<or>
        (\<exists>p. Parent_of (h2 ! c) = Some p \<and> p < length h2 \<and> is_disk (h2 ! p))"
  proof (cases "\<exists>p. Parent_of (h2 ! c) = Some p \<and> p < length h2 \<and> is_disk (h2 ! p)")
    case True then show ?thesis by simp
  next
    case False
    then have e2: "Parent_of (h2 ! c) = Parent_of (h1 ! c)" using assms(2) c1 by (auto simp: evolves_def)
    show ?thesis
    proof (cases "Parent_of (h1 ! c) = Parent_of (h ! c)")
      case True then show ?thesis using e2 by simp
    next
      case F: False
      then obtain p where p: "Parent_of (h1 ! c) = Some p" "p < length h1" "is_disk (h1 ! p)"
        using assms(1) c by (auto simp: evolves_def)
      then have "p < length h2 \<and> is_disk (h2 ! p)" using assms(2) by (auto simp: evolves_def)
      then show ?thesis using e2 p by simp
    qed
  qed
qed

lemma evolves_append: "evolves h (h @ [DiskLayer dl])"
  by (auto simp: evolves_def nth_append less_Suc_eq)

lemma evolves_stale_disk:
  "a < length h \<Longrightarrow> h ! a = DiskLayer dl \<Longrightarrow> evolves h (h[a := DiskLayer (dl\<lparr>diskLayer.stale := s\<rparr>)])"
  by (auto simp: evolves_def nth_list_update)

lemma evolves_stale_diff:
  "a < length h \<Longrightarrow> h ! a = DiffLayer dl \<Longrightarrow> evolves h (h[a := DiffLayer (dl\<lparr>diffLayer.stale := s\<rparr>)])"
  by (auto simp: evolves_def nth_list_update)

lemma evolves_set_parent:
  assumes "p < length h" "is_disk (h ! p)" shows "evolves h (set_parent h a p)"
proof (cases "a < length h \<and> (\<exists>dl. h ! a = DiffLayer dl)")
  case False
  then show ?thesis by (auto simp: set_parent_def layer_at_def evolves_refl split: layer.splits)
next
  case True
  then obtain dl where dl: "a < length h" "h ! a = DiffLayer dl" by blast
  have ap: "a \<noteq> p" using assms dl by auto
  have s: "set_parent h a p = h[a := DiffLayer (dl\<lparr>diffLayer.parent := p\<rparr>)]"
    using dl by (simp add: set_parent_def layer_at_def)
  show ?thesis unfolding s evolves_def using assms dl ap
    by (auto simp: nth_list_update)
qed

lemma evolves_chain:
  "evolves h h1 \<Longrightarrow> is_chain h c ds b \<Longrightarrow> \<exists>ds1 b1. is_chain h1 c ds1 b1 \<and> length ds1 \<le> length ds"
proof (induction ds arbitrary: c)
  case Nil
  then have "is_chain h1 c [] c" by (auto simp: chain_Nil_iff evolves_def)
  then show ?case by (intro exI[of _ "[]"]) auto
next
  case (Cons d ds)
  then obtain dl where dl: "c = d" "c < length h" "h ! c = DiffLayer dl" "is_chain h (diffLayer.parent dl) ds b"
    by (auto simp: chain_Cons_iff)
  have c1: "c < length h1" using Cons.prems(1) dl(2) by (auto simp: evolves_def)
  have nd: "\<not> is_disk (h1 ! c)" using Cons.prems(1) dl by (auto simp: evolves_def)
  then obtain dl1 where dl1: "h1 ! c = DiffLayer dl1" by (cases "h1 ! c") auto
  have par: "diffLayer.parent dl1 = diffLayer.parent dl \<or>
             (diffLayer.parent dl1 < length h1 \<and> is_disk (h1 ! diffLayer.parent dl1))"
    using Cons.prems(1) dl dl1 by (auto simp: evolves_def)
  show ?case
  proof (cases "diffLayer.parent dl1 < length h1 \<and> is_disk (h1 ! diffLayer.parent dl1)")
    case True
    then have "is_chain h1 c [c] (diffLayer.parent dl1)"
      using c1 dl1 by (auto simp: chain_Cons_iff chain_Nil_iff)
    then show ?thesis by (intro exI[of _ "[c]"] exI[of _ "diffLayer.parent dl1"]) auto
  next
    case False
    then have "diffLayer.parent dl1 = diffLayer.parent dl" using par by blast
    moreover obtain ds1 b1 where "is_chain h1 (diffLayer.parent dl) ds1 b1" "length ds1 \<le> length ds"
      using Cons.IH[OF Cons.prems(1) dl(4)] by blast
    ultimately have "is_chain h1 c (c # ds1) b1 \<and> length (c # ds1) \<le> length (d # ds)"
      using c1 dl1 by (auto simp: chain_Cons_iff)
    then show ?thesis by blast
  qed
qed

lemma evolves_wf: assumes "evolves h h1" "wf_heap h" shows "wf_heap h1"
  unfolding wf_heap_def
proof (intro allI impI)
  fix c assume c: "c < length h1"
  show "\<exists>ds b. is_chain h1 c ds b"
  proof (cases "c < length h")
    case True
    then show ?thesis using assms evolves_chain unfolding wf_heap_def by blast
  next
    case False
    then have "is_disk (h1 ! c)" using assms(1) c by (auto simp: evolves_def)
    then have "is_chain h1 c [] c" using c by (simp add: chain_Nil_iff)
    then show ?thesis by blast
  qed
qed


section \<open>Commit and persist on the heap\<close>

lemma commit_evolves: "commit e fz sh lim a b force w = (r, w1) \<Longrightarrow> evolves (heap w) (heap w1)"
  unfolding commit_def
  by (auto simp: evolves_refl Let_def layer_at_def split: option.splits layer.splits prod.splits if_splits
      intro!: evolves_stale_disk evolves_trans[OF evolves_stale_disk evolves_append])

lemma commit_frame:
  "commit e fz sh lim a b force w = (r, w1) \<Longrightarrow> c < length (heap w) \<Longrightarrow> c \<noteq> a \<Longrightarrow> heap w1 ! c = heap w ! c"
  unfolding commit_def
  by (auto simp: Let_def layer_at_def nth_append split: option.splits layer.splits prod.splits if_splits)

lemma commit_result:
  assumes "commit e fz sh lim a b force w = (Inr n, w1)"
  shows "n = length (heap w) \<and> length (heap w1) = Suc (length (heap w)) \<and> b < length (heap w) \<and>
         (\<exists>bl. heap w1 ! n = DiskLayer bl \<and> \<not> diskLayer.stale bl \<and>
               diskLayer.root bl = Root_of (heap w ! b) \<and> diskLayer.diffid bl = ID (heap w ! b))"
  using assms unfolding commit_def
  by (auto simp: Let_def layer_at_def nth_append split: option.splits layer.splits prod.splits if_splits)

lemma histories_ok_in:
  "histories_ok e h \<Longrightarrow> layer_at h b = Some (DiffLayer dl) \<Longrightarrow> history_ok (codec e) (diffLayer.nodes dl)"
  unfolding histories_ok_def layer_at_def by (auto split: if_splits dest!: nth_mem)

lemma histories_ok_disk: "histories_ok e h \<Longrightarrow> histories_ok e (h[a := DiskLayer d])"
  unfolding histories_ok_def using set_update_subset_insert[of h a "DiskLayer d"] by auto

lemma histories_ok_append: "histories_ok e h \<Longrightarrow> histories_ok e (h @ [DiskLayer d])"
  unfolding histories_ok_def by auto

lemma histories_ok_set_parent: "histories_ok e h \<Longrightarrow> histories_ok e (set_parent h a p)"
proof (cases "layer_at h a")
  case None then show "histories_ok e h \<Longrightarrow> ?thesis" by (simp add: set_parent_def)
next
  case (Some l)
  show "histories_ok e h \<Longrightarrow> ?thesis"
  proof (cases l)
    case (DiskLayer d) then show "histories_ok e h \<Longrightarrow> ?thesis" using Some by (simp add: set_parent_def)
  next
    case (DiffLayer dl)
    assume ok: "histories_ok e h"
    have "history_ok (codec e) (diffLayer.nodes dl)" using histories_ok_in[OF ok] Some DiffLayer by simp
    then show ?thesis
      using ok Some DiffLayer set_update_subset_insert[of h a "DiffLayer (dl\<lparr>diffLayer.parent := p\<rparr>)"]
      unfolding histories_ok_def set_parent_def by auto
  qed
qed

lemma commit_histories:
  "commit e fz sh lim a b force w = (r, w1) \<Longrightarrow> histories_ok e (heap w) \<Longrightarrow> histories_ok e (heap w1)"
  unfolding commit_def
  by (auto simp: Let_def histories_ok_disk histories_ok_append
      split: option.splits layer.splits prod.splits if_splits)

lemma ext_ok_heap:
  "ext_ok e fz sh h \<Longrightarrow> (histories_ok e h \<Longrightarrow> histories_ok e h1) \<Longrightarrow> ext_ok e fz sh h1"
  unfolding ext_ok_def by blast

lemma commit_success:
  assumes "ext_ok e fz sh (heap w)" "layer_at (heap w) a = Some (DiskLayer dl)"
    "layer_at (heap w) b = Some (DiffLayer bottom)"
  shows "\<exists>n w1. commit e fz sh lim a b force w = (Inr n, w1)"
proof -
  let ?h1 = "(heap w)[a := DiskLayer (dl\<lparr>diskLayer.stale := True\<rparr>)]"
  obtain x1 where x1: "(case fz of Some f \<Rightarrow> storeReverseDiff e f ?h1 b lim (xstate w) | None \<Rightarrow> (None, xstate w)) = (None, x1)"
    using assms(1) unfolding ext_ok_def
    by (cases fz) (auto simp: prod_eq_iff)
  have "sh \<noteq> None \<Longrightarrow> history_ok (codec e) (diffLayer.nodes bottom)"
    using assms(1,3) histories_ok_in unfolding ext_ok_def by blast
  then obtain x2 where x2: "(case sh of Some s \<Rightarrow> storeStateHistory e s bottom x1 | None \<Rightarrow> (None, x1)) = (None, x2)"
    by (cases sh) (auto simp: storeStateHistory_def history_ok_def split: sum.splits)
  obtain nd x3 where x3: "dirty_commit e (dirty dl) (slim (diffLayer.nodes bottom)) x2 = (nd, x3)"
    by (cases "dirty_commit e (dirty dl) (slim (diffLayer.nodes bottom)) x2")
  obtain x4 where x4: "dirty_mayFlush e nd (diskdb dl) (clean dl) (diffLayer.diffid bottom) force x3 = (None, x4)"
    using assms(1) unfolding ext_ok_def by (auto simp: prod_eq_iff)
  show ?thesis unfolding commit_def using assms(2,3) x1 x2 x3 x4 by (simp add: Let_def)
qed

lemma diffToDisk_evolves: "diffToDisk e fz sh lim b force w = (r, w1) \<Longrightarrow> evolves (heap w) (heap w1)"
  unfolding diffToDisk_def
  by (auto simp: evolves_refl split: option.splits layer.splits dest: commit_evolves)

lemma diffToDisk_frame:
  assumes "diffToDisk e fz sh lim b force w = (r, w1)" "c < length (heap w)"
    and "\<And>dl. heap w ! b = DiffLayer dl \<Longrightarrow> c \<noteq> diffLayer.parent dl"
  shows "heap w1 ! c = heap w ! c"
  using assms unfolding diffToDisk_def
  by (auto simp: layer_at_def split: option.splits layer.splits if_splits dest: commit_frame)

lemma diffToDisk_result:
  assumes "diffToDisk e fz sh lim b force w = (Inr n, w1)"
  shows "n = length (heap w) \<and> length (heap w1) = Suc (length (heap w)) \<and> b < length (heap w) \<and>
         (\<exists>bl. heap w1 ! n = DiskLayer bl \<and> \<not> diskLayer.stale bl \<and>
               diskLayer.root bl = Root_of (heap w ! b) \<and> diskLayer.diffid bl = ID (heap w ! b))"
  using assms unfolding diffToDisk_def
  by (auto split: option.splits layer.splits dest!: commit_result)

lemma diffToDisk_histories:
  "diffToDisk e fz sh lim b force w = (r, w1) \<Longrightarrow> histories_ok e (heap w) \<Longrightarrow> histories_ok e (heap w1)"
  unfolding diffToDisk_def
  by (auto split: option.splits layer.splits dest: commit_histories)

lemma diffToDisk_success:
  assumes "ext_ok e fz sh (heap w)" "layer_at (heap w) b = Some (DiffLayer bottom)"
    "layer_at (heap w) (diffLayer.parent bottom) = Some (DiskLayer dl)"
  shows "\<exists>n w1. diffToDisk e fz sh lim b force w = (Inr n, w1)"
  using assms commit_success[OF assms(1) assms(3) assms(2)] unfolding diffToDisk_def by simp

text \<open>One unfolding of \<open>persist\<close>, by the kind of the parent.\<close>

lemma persist_Suc_disk:
  assumes "layer_at (heap w) a = Some (DiffLayer dl)"
    and "\<And>pl. layer_at (heap w) (diffLayer.parent dl) \<noteq> Some (DiffLayer pl)"
  shows "persist e (Suc fuel) fz sh lim force a w = Some (diffToDisk e fz sh lim a force w)"
  using assms by (auto split: option.splits layer.splits)

lemma persist_Suc_diff:
  assumes "layer_at (heap w) a = Some (DiffLayer dl)"
    and "layer_at (heap w) (diffLayer.parent dl) = Some (DiffLayer pl)"
  shows "persist e (Suc fuel) fz sh lim force a w =
           (case persist e fuel fz sh lim force (diffLayer.parent dl) w of
              None \<Rightarrow> None
            | Some (Inl err, w1) \<Rightarrow> Some (Inl err, w1)
            | Some (Inr result, w1) \<Rightarrow>
                Some (diffToDisk e fz sh lim a force (w1\<lparr>heap := set_parent (heap w1) a result\<rparr>)))"
  using assms by simp

lemma persist_not_diff:
  assumes "\<And>dl. layer_at (heap w) a \<noteq> Some (DiffLayer dl)"
  shows "persist e (Suc fuel) fz sh lim force a w = Some (Inl (Panic ''nil pointer dereference''), w)"
  using assms by (auto split: option.splits layer.splits)

lemma persist_evolves_result:
  "persist e fuel fz sh lim force a w = Some (r, w1) \<Longrightarrow>
     evolves (heap w) (heap w1) \<and>
     (\<forall>base. r = Inr base \<longrightarrow>
        length (heap w) \<le> base \<and> base < length (heap w1) \<and> a < length (heap w) \<and>
        (\<exists>bl. heap w1 ! base = DiskLayer bl \<and> \<not> diskLayer.stale bl \<and>
              diskLayer.root bl = Root_of (heap w ! a) \<and> diskLayer.diffid bl = ID (heap w ! a)))"
proof (induction fuel arbitrary: a w r w1)
  case 0 then show ?case by simp
next
  case (Suc fuel)
  show ?case
  proof (cases "\<exists>dl. layer_at (heap w) a = Some (DiffLayer dl)")
    case False
    then show ?thesis using Suc.prems persist_not_diff[of w a] by (auto simp: evolves_refl)
  next
    case True
    then obtain dl where dl: "layer_at (heap w) a = Some (DiffLayer dl)" by blast
    then have a: "a < length (heap w)" "heap w ! a = DiffLayer dl"
      by (auto simp: layer_at_def split: if_splits)
    show ?thesis
    proof (cases "\<exists>pl. layer_at (heap w) (diffLayer.parent dl) = Some (DiffLayer pl)")
      case False
      then have d: "diffToDisk e fz sh lim a force w = (r, w1)"
        using Suc.prems persist_Suc_disk[OF dl] by auto
      show ?thesis using diffToDisk_evolves[OF d] diffToDisk_result[of e fz sh lim a force w _ w1] d
        by auto
    next
      case True
      then obtain pl where pl: "layer_at (heap w) (diffLayer.parent dl) = Some (DiffLayer pl)" by blast
      note unf = persist_Suc_diff[OF dl pl, of e fuel fz sh lim force]
      show ?thesis
      proof (cases "persist e fuel fz sh lim force (diffLayer.parent dl) w")
        case None then show ?thesis using Suc.prems unf by simp
      next
        case (Some res)
        obtain r0 w0 where res: "res = (r0, w0)" by (cases res)
        have ih: "evolves (heap w) (heap w0)"
          and ihr: "\<And>base. r0 = Inr base \<Longrightarrow> length (heap w) \<le> base \<and> base < length (heap w0) \<and>
                      (\<exists>bl. heap w0 ! base = DiskLayer bl)"
          using Suc.IH[of "diffLayer.parent dl" w r0 w0] Some res by auto
        show ?thesis
        proof (cases r0)
          case (Inl err)
          then show ?thesis using Suc.prems unf Some res ih by auto
        next
          case (Inr result)
          let ?w2 = "w0\<lparr>heap := set_parent (heap w0) a result\<rparr>"
          have d: "diffToDisk e fz sh lim a force ?w2 = (r, w1)"
            using Suc.prems unf Some res Inr by simp
          have rd: "result < length (heap w0)" "is_disk (heap w0 ! result)"
            using ihr[OF Inr] by auto
          have e2: "evolves (heap w0) (heap ?w2)" using evolves_set_parent[OF rd] by simp
          have e3: "evolves (heap ?w2) (heap w1)" using diffToDisk_evolves[OF d] .
          have ev: "evolves (heap w) (heap w1)" using ih e2 e3 evolves_trans by blast
          have e02: "evolves (heap w) (heap ?w2)" using ih e2 evolves_trans by blast
          have "\<forall>base. r = Inr base \<longrightarrow>
                  length (heap w) \<le> base \<and> base < length (heap w1) \<and> a < length (heap w) \<and>
                  (\<exists>bl. heap w1 ! base = DiskLayer bl \<and> \<not> diskLayer.stale bl \<and>
                     diskLayer.root bl = Root_of (heap w ! a) \<and> diskLayer.diffid bl = ID (heap w ! a))"
          proof (intro allI impI)
            fix base assume "r = Inr base"
            then have d1: "diffToDisk e fz sh lim a force ?w2 = (Inr base, w1)" using d by simp
            note dr = diffToDisk_result[OF d1]
            have "Root_of (heap ?w2 ! a) = Root_of (heap w ! a) \<and> ID (heap ?w2 ! a) = ID (heap w ! a)
                  \<and> length (heap w) \<le> length (heap ?w2)"
              using e02 a(1) unfolding evolves_def by blast
            then show "length (heap w) \<le> base \<and> base < length (heap w1) \<and> a < length (heap w) \<and>
                  (\<exists>bl. heap w1 ! base = DiskLayer bl \<and> \<not> diskLayer.stale bl \<and>
                     diskLayer.root bl = Root_of (heap w ! a) \<and> diskLayer.diffid bl = ID (heap w ! a))"
              using dr a(1) by auto
          qed
          then show ?thesis using ev by blast
        qed
      qed
    qed
  qed
qed

lemma persist_evolves: "persist e fuel fz sh lim force a w = Some (r, w1) \<Longrightarrow> evolves (heap w) (heap w1)"
  using persist_evolves_result by blast

lemma persist_result:
  "persist e fuel fz sh lim force a w = Some (Inr base, w1) \<Longrightarrow>
     length (heap w) \<le> base \<and> base < length (heap w1) \<and> a < length (heap w) \<and>
     (\<exists>bl. heap w1 ! base = DiskLayer bl \<and> \<not> diskLayer.stale bl \<and>
           diskLayer.root bl = Root_of (heap w ! a) \<and> diskLayer.diffid bl = ID (heap w ! a))"
  using persist_evolves_result by blast


lemma set_parent_nth:
  "set_parent h a p ! c = (if c = a \<and> a < length h then (case h ! a of DiffLayer dl \<Rightarrow> DiffLayer (dl\<lparr>diffLayer.parent := p\<rparr>) | l \<Rightarrow> l) else h ! c)"
  by (auto simp: set_parent_def layer_at_def split: layer.splits)

lemma set_parent_length [simp]: "length (set_parent h a p) = length h"
  by (auto simp: set_parent_def split: option.splits layer.splits)

lemma persist_frame:
  "is_chain (heap w) a (a # ds) b \<Longrightarrow> persist e fuel fz sh lim force a w = Some (r, w1) \<Longrightarrow>
   c < length (heap w) \<Longrightarrow> c \<notin> set (a # ds) \<Longrightarrow> c \<noteq> b \<Longrightarrow> heap w1 ! c = heap w ! c"
proof (induction ds arbitrary: a fuel w r w1)
  case Nil
  then obtain dl where dl: "a < length (heap w)" "heap w ! a = DiffLayer dl"
      "diffLayer.parent dl = b" "b < length (heap w)" "is_disk (heap w ! b)"
    by (auto simp: chain_Cons_iff chain_Nil_iff)
  obtain f where f: "fuel = Suc f" using Nil.prems(2) by (cases fuel) auto
  have la: "layer_at (heap w) a = Some (DiffLayer dl)" using dl by (simp add: layer_at_def)
  have "\<And>pl. layer_at (heap w) (diffLayer.parent dl) \<noteq> Some (DiffLayer pl)"
    using dl by (auto simp: layer_at_def)
  then have "diffToDisk e fz sh lim a force w = (r, w1)"
    using Nil.prems(2) f persist_Suc_disk[OF la] by auto
  then show ?case using diffToDisk_frame[of e fz sh lim a force w r w1 c] Nil.prems dl by auto
next
  case (Cons p ds)
  then obtain dl where dl: "a < length (heap w)" "heap w ! a = DiffLayer dl"
      "is_chain (heap w) (diffLayer.parent dl) (p # ds) b"
    by (auto simp: chain_Cons_iff)
  then have pp: "diffLayer.parent dl = p" by (auto simp: chain_Cons_iff)
  obtain pl where pl: "layer_at (heap w) p = Some (DiffLayer pl)"
    using dl(3) pp by (auto simp: chain_Cons_iff layer_at_def)
  obtain f where f: "fuel = Suc f" using Cons.prems(2) by (cases fuel) auto
  have la: "layer_at (heap w) a = Some (DiffLayer dl)" using dl by (simp add: layer_at_def)
  note unf = persist_Suc_diff[OF la pl[folded pp], of e f fz sh lim force]
  show ?case
  proof (cases "persist e f fz sh lim force p w")
    case None then show ?thesis using Cons.prems(2) f unf pp by simp
  next
    case (Some res)
    obtain r0 w0 where res: "res = (r0, w0)" by (cases res)
    have ih: "heap w0 ! c = heap w ! c"
      using Cons.IH[OF dl(3)[unfolded pp] Some[unfolded res] Cons.prems(3)] Cons.prems(4,5) by simp
    show ?thesis
    proof (cases r0)
      case (Inl err)
      then show ?thesis using Cons.prems(2) f unf pp Some res ih by simp
    next
      case (Inr result)
      let ?w2 = "w0\<lparr>heap := set_parent (heap w0) a result\<rparr>"
      have d: "diffToDisk e fz sh lim a force ?w2 = (r, w1)"
        using Cons.prems(2) f unf pp Some res Inr by simp
      have pr: "length (heap w) \<le> result" "result < length (heap w0)"
        using persist_result[OF Some[unfolded res Inr]] by auto
      have ev: "evolves (heap w) (heap w0)" using persist_evolves[OF Some[unfolded res]] .
      have ca: "c \<noteq> a" using Cons.prems(4) by simp
      have c2: "heap ?w2 ! c = heap w0 ! c" using ca by (simp add: set_parent_nth)
      have "\<not> is_disk (heap w0 ! a)" using ev dl(1,2) by (auto simp: evolves_def)
      then obtain dl0 where dl0: "heap w0 ! a = DiffLayer dl0" by (cases "heap w0 ! a") auto
      have a0: "a < length (heap w0)" using ev dl(1) by (auto simp: evolves_def)
      have a2: "heap ?w2 ! a = DiffLayer (dl0\<lparr>diffLayer.parent := result\<rparr>)"
        using dl0 a0 by (simp add: set_parent_nth)
      have cl: "c < length (heap ?w2)" using Cons.prems(3) ev by (auto simp: evolves_def)
      have "heap w1 ! c = heap ?w2 ! c"
        using diffToDisk_frame[OF d cl] a2 pr Cons.prems(3) by auto
      then show ?thesis using c2 ih by simp
    qed
  qed
qed

lemma persist_histories:
  "persist e fuel fz sh lim force a w = Some (r, w1) \<Longrightarrow> histories_ok e (heap w) \<Longrightarrow>
   histories_ok e (heap w1)"
proof (induction fuel arbitrary: a r w1)
  case 0 then show ?case by simp
next
  case (Suc fuel)
  show ?case
  proof (cases "layer_at (heap w) a")
    case None then show ?thesis using Suc.prems by auto
  next
    case (Some l)
    show ?thesis
    proof (cases l)
      case (DiskLayer d) then show ?thesis using Suc.prems Some by auto
    next
      case (DiffLayer dl)
      note la = Some[unfolded DiffLayer]
      show ?thesis
      proof (cases "\<exists>pl. layer_at (heap w) (diffLayer.parent dl) = Some (DiffLayer pl)")
        case False
        then have "persist e (Suc fuel) fz sh lim force a w = Some (diffToDisk e fz sh lim a force w)"
          using persist_Suc_disk[OF la] by auto
        then show ?thesis using Suc.prems diffToDisk_histories by (metis option.inject)
      next
        case True
        then obtain pl where pl: "layer_at (heap w) (diffLayer.parent dl) = Some (DiffLayer pl)" by blast
        note unf = persist_Suc_diff[OF la pl, of e fuel fz sh lim force]
        show ?thesis
        proof (cases "persist e fuel fz sh lim force (diffLayer.parent dl) w")
          case None then show ?thesis using Suc.prems unf by simp
        next
          case (Some res)
          obtain r0 w0 where res: "res = (r0, w0)" by (cases res)
          have ok0: "histories_ok e (heap w0)" using Suc.IH[OF Some[unfolded res] Suc.prems(2)] .
          show ?thesis
          proof (cases r0)
            case (Inl err)
            then show ?thesis using Suc.prems unf Some res ok0 by simp
          next
            case (Inr result)
            let ?w2 = "w0\<lparr>heap := set_parent (heap w0) a result\<rparr>"
            have d: "diffToDisk e fz sh lim a force ?w2 = (r, w1)"
              using Suc.prems(1) unf Some res Inr by simp
            have "histories_ok e (heap ?w2)" using histories_ok_set_parent[OF ok0] by simp
            then show ?thesis using diffToDisk_histories[OF d] by simp
          qed
        qed
      qed
    qed
  qed
qed

lemma persist_success:
  "ext_ok e fz sh (heap w) \<Longrightarrow> is_chain (heap w) a (a # ds) b \<Longrightarrow> length ds < fuel \<Longrightarrow>
   \<exists>base w1. persist e fuel fz sh lim force a w = Some (Inr base, w1)"
proof (induction ds arbitrary: a fuel)
  case Nil
  then obtain dl where dl: "a < length (heap w)" "heap w ! a = DiffLayer dl"
      "diffLayer.parent dl = b" "b < length (heap w)" "is_disk (heap w ! b)"
    by (auto simp: chain_Cons_iff chain_Nil_iff)
  obtain f where f: "fuel = Suc f" using Nil.prems(3) by (cases fuel) auto
  have la: "layer_at (heap w) a = Some (DiffLayer dl)" using dl by (simp add: layer_at_def)
  obtain bd where bd: "layer_at (heap w) (diffLayer.parent dl) = Some (DiskLayer bd)"
    using dl by (cases "heap w ! b") (auto simp: layer_at_def)
  then have "\<And>pl. layer_at (heap w) (diffLayer.parent dl) \<noteq> Some (DiffLayer pl)" by simp
  then have "persist e fuel fz sh lim force a w = Some (diffToDisk e fz sh lim a force w)"
    using f persist_Suc_disk[OF la] by auto
  then show ?case using diffToDisk_success[OF Nil.prems(1) la bd, of lim force] by auto
next
  case (Cons p ds)
  then obtain dl where dl: "a < length (heap w)" "heap w ! a = DiffLayer dl"
      "is_chain (heap w) (diffLayer.parent dl) (p # ds) b"
    by (auto simp: chain_Cons_iff)
  then have pp: "diffLayer.parent dl = p" by (auto simp: chain_Cons_iff)
  obtain pl where pl: "layer_at (heap w) p = Some (DiffLayer pl)"
    using dl(3) pp by (auto simp: chain_Cons_iff layer_at_def)
  obtain f where f: "fuel = Suc f" "length ds < f" using Cons.prems(3) by (cases fuel) auto
  have la: "layer_at (heap w) a = Some (DiffLayer dl)" using dl by (simp add: layer_at_def)
  note unf = persist_Suc_diff[OF la pl[folded pp], of e f fz sh lim force]
  obtain result w0 where r0: "persist e f fz sh lim force p w = Some (Inr result, w0)"
    using Cons.IH[OF Cons.prems(1) dl(3)[unfolded pp] f(2)] by blast
  let ?w2 = "w0\<lparr>heap := set_parent (heap w0) a result\<rparr>"
  have pr: "length (heap w) \<le> result" "result < length (heap w0)"
    and "\<exists>bl. heap w0 ! result = DiskLayer bl"
    using persist_result[OF r0] by auto
  then obtain bl where bl: "heap w0 ! result = DiskLayer bl" by blast
  have ev: "evolves (heap w) (heap w0)" using persist_evolves[OF r0] .
  have "\<not> is_disk (heap w0 ! a)" using ev dl(1,2) by (auto simp: evolves_def)
  then obtain dl0 where dl0: "heap w0 ! a = DiffLayer dl0" by (cases "heap w0 ! a") auto
  have a0: "a < length (heap w0)" using ev dl(1) by (auto simp: evolves_def)
  have ar: "a \<noteq> result" using pr dl(1) by auto
  have l2: "layer_at (heap ?w2) a = Some (DiffLayer (dl0\<lparr>diffLayer.parent := result\<rparr>))"
    using dl0 a0 by (simp add: layer_at_def set_parent_nth)
  have p2: "layer_at (heap ?w2) (diffLayer.parent (dl0\<lparr>diffLayer.parent := result\<rparr>)) = Some (DiskLayer bl)"
    using bl pr ar by (simp add: layer_at_def set_parent_nth)
  have ok2: "ext_ok e fz sh (heap ?w2)"
  proof (rule ext_ok_heap[OF Cons.prems(1)])
    assume "histories_ok e (heap w)"
    then have "histories_ok e (heap w0)" using persist_histories[OF r0] by simp
    then show "histories_ok e (heap ?w2)" using histories_ok_set_parent by simp
  qed
  have "persist e fuel fz sh lim force a w = Some (diffToDisk e fz sh lim a force ?w2)"
    using unf f(1) pp r0 by simp
  then show ?case using diffToDisk_success[OF ok2 l2 p2, of lim force] by auto
qed

section \<open>Trees built by updates\<close>

lemma convertEmpty_idem [simp]: "convertEmpty e (convertEmpty e r) = convertEmpty e r"
  by (simp add: convertEmpty_def)

lemma get_convertEmpty [simp]: "get e t (convertEmpty e r) = get e t r"
  by (simp add: get_def)

lemma keys_ok_get: "keys_ok t h \<Longrightarrow> get e t rt = Some a \<Longrightarrow> a < length h \<and> Root_of (h ! a) = convertEmpty e rt"
  unfolding keys_ok_def get_def by (auto dest!: map_of_SomeD)

lemma set_update_subset: "set (AList.update k v al) \<subseteq> insert (k, v) (set al)"
  by (induction al) auto

lemma chain_append: assumes "is_chain h c ds b" shows "is_chain (h @ ls) c ds b"
proof (rule chain_frame[OF assms])
  show "length h \<le> length (h @ ls)" by simp
  show "\<forall>c\<in>set ds \<union> {b}. (h @ ls) ! c = h ! c"
    using chain_set_bound[OF assms] by (auto simp: nth_append)
qed

lemma add_inv:
  assumes "wf_heap (heap w)" "keys_ok t (heap w)" "add e rt prt ns (t, w) = (err, t1, w1)"
  shows "wf_heap (heap w1) \<and> keys_ok t1 (heap w1)"
proof (cases "err = None")
  case False
  then have "t1 = t \<and> w1 = w" using assms(3) unfolding add_def Update_def
    by (auto simp: Let_def split: option.splits if_splits)
  then show ?thesis using assms by simp
next
  case True
  then obtain p pl where p: "get e t prt = Some p" "layer_at (heap w) p = Some pl"
    and w1: "heap w1 = heap w @ [DiffLayer (newDiffLayer e p (convertEmpty e rt) (ID pl + 1) ns)]"
    and t1: "layers t1 = AList.update (convertEmpty e rt) (length (heap w)) (layers t)"
    using assms(3) unfolding add_def Update_def
    by (auto simp: Let_def split: option.splits if_splits)
  let ?n = "length (heap w)"
  have pv: "p < ?n" using p(2) by (auto simp: layer_at_def split: if_splits)
  obtain ds b where ch: "is_chain (heap w) p ds b" using assms(1) pv unfolding wf_heap_def by blast
  have new: "is_chain (heap w1) ?n (?n # ds) b"
    using chain_append[OF ch] unfolding w1
    by (simp add: chain_Cons_iff newDiffLayer_def)
  have "wf_heap (heap w1)" unfolding wf_heap_def
  proof (intro allI impI)
    fix c assume "c < length (heap w1)"
    then consider "c < ?n" | "c = ?n" using w1 by (auto simp: less_Suc_eq)
    then show "\<exists>ds b. is_chain (heap w1) c ds b"
    proof cases
      case 1
      then obtain ds' b' where "is_chain (heap w) c ds' b'" using assms(1) unfolding wf_heap_def by blast
      then show ?thesis using chain_append unfolding w1 by blast
    next
      case 2 then show ?thesis using new by blast
    qed
  qed
  moreover have "keys_ok t1 (heap w1)" unfolding keys_ok_def
  proof (intro ballI)
    fix ra assume "ra \<in> set (layers t1)"
    then have "ra = (convertEmpty e rt, ?n) \<or> ra \<in> set (layers t)"
      using set_update_subset t1 by fastforce
    then show "case ra of (r, a) \<Rightarrow> a < length (heap w1) \<and> Root_of (heap w1 ! a) = r"
      using assms(2) unfolding keys_ok_def w1
      by (auto simp: nth_append newDiffLayer_def)
  qed
  ultimately show ?thesis by simp
qed

lemma disk_tree_inv: "wf_heap (heap (snd (disk_tree dl x))) \<and> keys_ok (fst (disk_tree dl x)) (heap (snd (disk_tree dl x)))"
proof -
  have "is_chain [DiskLayer dl] 0 [] 0" by (simp add: chain_Nil_iff)
  then have "\<exists>ds b. is_chain [DiskLayer dl] 0 ds b" by blast
  then show ?thesis by (simp add: disk_tree_def wf_heap_def keys_ok_def)
qed

lemma updates_inv:
  "wf_heap (heap (snd tw)) \<and> keys_ok (fst tw) (heap (snd tw)) \<Longrightarrow>
   wf_heap (heap (snd (updates e ops tw))) \<and> keys_ok (fst (updates e ops tw)) (heap (snd (updates e ops tw)))"
proof (induction ops arbitrary: tw)
  case Nil then show ?case by simp
next
  case (Cons op ops)
  obtain rt prt ns where op: "op = (rt, prt, ns)" by (cases op)
  obtain t w where tw: "tw = (t, w)" by (cases tw)
  obtain err t1 w1 where a: "add e rt prt ns (t, w) = (err, t1, w1)" by (cases "add e rt prt ns (t, w)")
  have "wf_heap (heap w1) \<and> keys_ok t1 (heap w1)" using add_inv[OF _ _ a] Cons.prems tw by simp
  then show ?case using Cons.IH[of "(t1, w1)"] op tw a by simp
qed

lemma layerTree_update: "(t::layerTree)\<lparr>layers := ls\<rparr> = \<lparr>layers = ls\<rparr>"
  by (cases t) simp

lemma cap_zero:
  assumes ok: "ext_ok e fz sh (heap w)" and wf: "wf_heap (heap w)" and keys: "keys_ok t (heap w)"
    and g: "get e t rt = Some a" and la: "layer_at (heap w) a = Some (DiffLayer dl)"
    and fu: "length (heap w) \<le> fuel"
  shows "\<exists>w1 base bl. cap e fuel rt 0 fz sh lim (t, w) = Some (None, t\<lparr>layers := [(convertEmpty e rt, base)]\<rparr>, w1) \<and>
           layer_at (heap w1) base = Some (DiskLayer bl) \<and> diskLayer.root bl = convertEmpty e rt \<and>
           \<not> diskLayer.stale bl"
proof -
  have av: "a < length (heap w)" "heap w ! a = DiffLayer dl"
    using la by (auto simp: layer_at_def split: if_splits)
  obtain ds b where ch: "is_chain (heap w) a ds b" using wf av unfolding wf_heap_def by blast
  then obtain ds' where ds: "ds = a # ds'" using av by (cases ds) (auto simp: chain_Nil_iff chain_Cons_iff)
  have "length ds' < fuel" using chain_length[OF ch] ds fu by simp
  then obtain base w1 where p: "persist e fuel fz sh lim True a w = Some (Inr base, w1)"
    using persist_success[OF ok ch[unfolded ds]] by blast
  obtain bl where bl: "base < length (heap w1)" "heap w1 ! base = DiskLayer bl" "\<not> diskLayer.stale bl"
      "diskLayer.root bl = Root_of (heap w ! a)"
    using persist_result[OF p] by blast
  have r: "Root_of (heap w ! a) = convertEmpty e rt" using keys_ok_get[OF keys g] by simp
  have lb: "layer_at (heap w1) base = Some (DiskLayer bl)" using bl by (simp add: layer_at_def)
  have "cap e fuel rt 0 fz sh lim (t, w) = Some (None, t\<lparr>layers := [(convertEmpty e rt, base)]\<rparr>, w1)"
    unfolding cap_def using g la p lb bl(4) r by simp
  then show ?thesis using lb bl r by auto
qed

text \<open>
  Claim C1, amended. For every layer tree built by a sequence of \<^verbatim>\<open>Update\<close> operations
  on a disk layer, \<^verbatim>\<open>cap\<close> with zero layers (which is \<^verbatim>\<open>Commit\<close>) on a root that
  resolves to a diff layer succeeds, provided it has fuel for the length of the heap,
  the reverse-diff freezer accepts its appends, the state history of the diff layers
  can be built when a state-history freezer is attached, and the flush does not fail.
  Afterwards the tree has exactly one layer, a live disk layer; its root is the
  requested root, except that the zero hash is normalised first: for the zero hash it
  is the root of the empty trie.
\<close>

theorem cap_zero_commits:
  assumes "tw = updates e ops (disk_tree d x)"
    and "get e (fst tw) rt = Some a"
    and "layer_at (heap (snd tw)) a = Some (DiffLayer dl)"
    and "ext_ok e freezer stateHistory (heap (snd tw))"
    and "length (heap (snd tw)) \<le> fuel"
  shows "\<exists>w1 base bl.
           cap e fuel rt 0 freezer stateHistory statelimit tw =
             Some (None, \<lparr>layers = [(convertEmpty e rt, base)]\<rparr>, w1) \<and>
           len \<lparr>layers = [(convertEmpty e rt, base)]\<rparr> = 1 \<and>
           layer_at (heap w1) base = Some (DiskLayer bl) \<and>
           diskLayer.root bl = (if rt = 0 then emptyRoot e else rt) \<and> \<not> diskLayer.stale bl"
proof -
  obtain t w where tw: "tw = (t, w)" by (cases tw)
  have "updates e ops (disk_tree d x) = (t, w)" using assms(1) tw by simp
  then have inv: "wf_heap (heap w) \<and> keys_ok t (heap w)"
    using updates_inv[OF disk_tree_inv, of e ops d x] by simp
  have ok: "ext_ok e freezer stateHistory (heap w)" using assms(4) tw by simp
  show ?thesis
    using cap_zero[OF ok conjunct1[OF inv] conjunct2[OF inv], of rt a dl fuel statelimit] assms(2,3,5) tw
    by (simp add: len_def layerTree_update convertEmpty_def)
qed

lemma history_deletion: "history_ok codec0 deletion \<and> history_ok codec0 []"
  unfolding history_ok_def by code_simp

lemma world3_built:
  "updates ext0 [(2, 1, deletion), (3, 2, [])] (disk_tree disk1 ()) =
     (\<lparr>layers = [(1, 0), (2, 1), (3, 2)]\<rparr>,
      \<lparr>heap = [DiskLayer disk1, DiffLayer (newDiffLayer ext0 0 2 2 deletion),
               DiffLayer (newDiffLayer ext0 1 3 3 [])], xstate = ()\<rparr>)"
  by (simp add: disk_tree_def add_def convertEmpty_def get_def layer_at_def Update_def disk1_def ext0_def
      newDiffLayer_def)

lemma ext0_ok:
  "ext_ok ext0 (Some 0) (Some 1) (heap (snd (updates ext0 [(2, 1, deletion), (3, 2, [])] (disk_tree disk1 ()))))"
  unfolding world3_built using history_deletion
  by (simp add: ext_ok_def histories_ok_def newDiffLayer_def ext0_def)

theorem cap_zero_commits_witness:
  "ext_ok ext0 (Some 0) (Some 1) (heap (snd (updates ext0 [(2, 1, deletion), (3, 2, [])] (disk_tree disk1 ())))) \<and>
   get ext0 (fst (updates ext0 [(2, 1, deletion), (3, 2, [])] (disk_tree disk1 ()))) 3 = Some 2 \<and>
   (\<exists>w1 base bl.
      cap ext0 3 3 0 (Some 0) (Some 1) 0 (updates ext0 [(2, 1, deletion), (3, 2, [])] (disk_tree disk1 ())) =
        Some (None, \<lparr>layers = [(3, base)]\<rparr>, w1) \<and>
      layer_at (heap w1) base = Some (DiskLayer bl) \<and> diskLayer.root bl = 3 \<and> \<not> diskLayer.stale bl)"
proof -
  let ?tw = "updates ext0 [(2, 1, deletion), (3, 2, [])] (disk_tree disk1 ())"
  have g: "get ext0 (fst ?tw) 3 = Some 2" unfolding world3_built by (simp add: get_def convertEmpty_def ext0_def)
  have l: "layer_at (heap (snd ?tw)) 2 = Some (DiffLayer (newDiffLayer ext0 1 3 3 []))"
    unfolding world3_built by (simp add: layer_at_def)
  have f: "length (heap (snd ?tw)) \<le> 3" unfolding world3_built by simp
  have c: "convertEmpty ext0 3 = 3" by (simp add: convertEmpty_def)
  show ?thesis
    using ext0_ok g cap_zero_commits[OF refl g l ext0_ok f, of 0] unfolding c by auto
qed

text \<open>
  The claim as stated fails. On the tree of no update, and on the tree of a rejected
  update, the head is the disk layer and \<^verbatim>\<open>cap\<close> with zero layers on its root returns
  an error and changes nothing. On the tree of one update to the zero hash, \<^verbatim>\<open>cap\<close> with
  zero layers on the zero hash succeeds and leaves a disk layer whose root is the
  root of the empty trie, not the zero hash.
\<close>

theorem cap_zero_counterexample:
  "cap ext0 3 1 0 None None 0 (updates ext0 [] (disk_tree disk1 ())) =
     Some (Some (ErrOther ''triedb snapshot is disk layer''), updates ext0 [] (disk_tree disk1 ())) \<and>
   cap ext0 3 1 0 None None 0 (updates ext0 [(1, 1, deletion)] (disk_tree disk1 ())) =
     Some (Some (ErrOther ''triedb snapshot is disk layer''), updates ext0 [(1, 1, deletion)] (disk_tree disk1 ())) \<and>
   map_option (\<lambda>r. (fst r, layers (fst (snd r)), map Root_of (heap (snd (snd r))), map Stale (heap (snd (snd r)))))
     (cap ext0 3 0 0 None None 0 (updates ext0 [(0, 1, deletion)] (disk_tree disk1 ()))) =
     Some (None, [(emptyRoot ext0, 2)], [1, emptyRoot ext0, emptyRoot ext0], [True, False, False]) \<and>
   emptyRoot ext0 \<noteq> 0"
  by code_simp

section \<open>Capping bounds the chain below the root\<close>

lemma dive_none: "is_chain h a ds b \<Longrightarrow> dive h n a = None \<Longrightarrow> length ds \<le> n"
proof (induction n arbitrary: a ds)
  case 0 then show ?case by simp
next
  case (Suc n)
  show ?case
  proof (cases ds)
    case Nil then show ?thesis by simp
  next
    case (Cons d ds')
    then obtain dl where dl: "a < length h" "h ! a = DiffLayer dl" "is_chain h (diffLayer.parent dl) ds' b"
      using Suc.prems(1) by (auto simp: chain_Cons_iff)
    show ?thesis
    proof (cases ds')
      case Nil then show ?thesis using Cons by simp
    next
      case (Cons p ds'')
      then obtain pl where "diffLayer.parent dl < length h" "h ! diffLayer.parent dl = DiffLayer pl"
        using dl(3) by (auto simp: chain_Cons_iff)
      then have "dive h n (diffLayer.parent dl) = None"
        using Suc.prems(2) dl by (simp add: layer_at_def)
      then have "length ds' \<le> n" using Suc.IH[OF dl(3)] by simp
      then show ?thesis using \<open>ds = d # ds'\<close> by simp
    qed
  qed
qed

lemma dive_some:
  "is_chain h a ds b \<Longrightarrow> ds \<noteq> [] \<Longrightarrow> dive h n a = Some d \<Longrightarrow>
   \<exists>ds1 ds2. ds = ds1 @ d # ds2 \<and> length ds1 = n"
proof (induction n arbitrary: a ds)
  case 0
  then show ?case by (cases ds) (auto simp: chain_Cons_iff)
next
  case (Suc n)
  then obtain d0 ds' where ds: "ds = d0 # ds'" by (cases ds) auto
  then obtain dl where dl: "a = d0" "a < length h" "h ! a = DiffLayer dl" "is_chain h (diffLayer.parent dl) ds' b"
    using Suc.prems(1) by (auto simp: chain_Cons_iff)
  have la: "layer_at h a = Some (DiffLayer dl)" using dl by (simp add: layer_at_def)
  obtain pl where pl: "layer_at h (diffLayer.parent dl) = Some (DiffLayer pl)"
      and dv: "dive h n (diffLayer.parent dl) = Some d"
    using Suc.prems(3) la by (auto split: option.splits layer.splits)
  have "ds' \<noteq> []" using dl(4) pl by (auto simp: chain_Nil_iff layer_at_def split: if_splits)
  then obtain ds1 ds2 where "ds' = ds1 @ d # ds2" "length ds1 = n"
    using Suc.IH[OF dl(4) _ dv] by blast
  then show ?case using ds by (intro exI[of _ "d0 # ds1"] exI[of _ ds2]) simp
qed

lemma chain_split: "is_chain h a (ds1 @ d # ds2) b \<Longrightarrow> is_chain h d (d # ds2) b"
  by (induction ds1 arbitrary: a) (auto simp: chain_Cons_iff)

lemma chain_rebind:
  "is_chain h a (ds1 @ d # ds2) b \<Longrightarrow> length h \<le> length h2 \<Longrightarrow> (\<forall>c\<in>set ds1. h2 ! c = h ! c) \<Longrightarrow>
   d < length h2 \<Longrightarrow> h2 ! d = DiffLayer dl2 \<Longrightarrow> diffLayer.parent dl2 < length h2 \<Longrightarrow>
   is_disk (h2 ! diffLayer.parent dl2) \<Longrightarrow> is_chain h2 a (ds1 @ [d]) (diffLayer.parent dl2)"
proof (induction ds1 arbitrary: a)
  case Nil
  then show ?case by (auto simp: chain_Cons_iff chain_Nil_iff)
next
  case (Cons c ds1)
  then show ?case by (auto simp: chain_Cons_iff)
qed

lemma cap_heap_cases:
  assumes "cap e fuel rt k fz sh lim (t, w) = Some (None, t1, w1)" and "k \<noteq> 0"
  shows "\<exists>a dl. get e t rt = Some a \<and> layer_at (heap w) a = Some (DiffLayer dl) \<and>
          ((dive (heap w) (nat (k - 1)) a = None \<and> w1 = w) \<or>
           (\<exists>d diff. dive (heap w) (nat (k - 1)) a = Some d \<and> layer_at (heap w) d = Some (DiffLayer diff) \<and>
              ((\<exists>pl. layer_at (heap w) (diffLayer.parent diff) = Some (DiskLayer pl) \<and> w1 = w) \<or>
               (\<exists>pl base w0. layer_at (heap w) (diffLayer.parent diff) = Some (DiffLayer pl) \<and>
                  persist e fuel fz sh lim False (diffLayer.parent diff) w = Some (Inr base, w0) \<and>
                  w1 = w0\<lparr>heap := set_parent (heap w0) d base\<rparr>))))"
  using assms unfolding cap_def
  by (simp add: Let_def split: option.splits layer.splits sum.splits prod.splits if_splits) blast?


lemma cap_chain_bound:
  assumes wf: "wf_heap (heap w)" and k: "0 < k"
    and c: "cap e fuel rt k fz sh lim (t, w) = Some (None, t1, w1)"
  shows "\<exists>a ds b. get e t rt = Some a \<and> is_chain (heap w1) a ds b \<and> length ds \<le> nat k"
proof -
  have k0: "k \<noteq> 0" using k by simp
  obtain a dl where g: "get e t rt = Some a" and la: "layer_at (heap w) a = Some (DiffLayer dl)"
    and cases: "(dive (heap w) (nat (k - 1)) a = None \<and> w1 = w) \<or>
           (\<exists>d diff. dive (heap w) (nat (k - 1)) a = Some d \<and> layer_at (heap w) d = Some (DiffLayer diff) \<and>
              ((\<exists>pl. layer_at (heap w) (diffLayer.parent diff) = Some (DiskLayer pl) \<and> w1 = w) \<or>
               (\<exists>pl base w0. layer_at (heap w) (diffLayer.parent diff) = Some (DiffLayer pl) \<and>
                  persist e fuel fz sh lim False (diffLayer.parent diff) w = Some (Inr base, w0) \<and>
                  w1 = w0\<lparr>heap := set_parent (heap w0) d base\<rparr>)))"
    using cap_heap_cases[OF c k0] by blast
  have av: "a < length (heap w)" "heap w ! a = DiffLayer dl"
    using la by (auto simp: layer_at_def split: if_splits)
  obtain ds b where ch: "is_chain (heap w) a ds b" using wf av unfolding wf_heap_def by blast
  have ne: "ds \<noteq> []" using ch av by (auto simp: chain_Nil_iff)
  have nk: "Suc (nat (k - 1)) = nat k" using k by simp
  from cases show ?thesis
  proof (elim disjE conjE exE)
    assume dn: "dive (heap w) (nat (k - 1)) a = None" and w1: "w1 = w"
    have "length ds \<le> nat (k - 1)" using dive_none[OF ch dn] .
    then have "is_chain (heap w1) a ds b \<and> length ds \<le> nat k" using ch nk w1 by auto
    then show ?thesis using g by blast
  next
    fix d diff pl
    assume dv: "dive (heap w) (nat (k - 1)) a = Some d"
      and ld: "layer_at (heap w) d = Some (DiffLayer diff)"
      and lp: "layer_at (heap w) (diffLayer.parent diff) = Some (DiskLayer pl)" and w1: "w1 = w"
    obtain ds1 ds2 where sp: "ds = ds1 @ d # ds2" "length ds1 = nat (k - 1)"
      using dive_some[OF ch ne dv] by blast
    have "is_chain (heap w) d (d # ds2) b" using chain_split ch sp(1) by blast
    then have "ds2 = []" using ld lp
      by (cases ds2) (auto simp: chain_Cons_iff layer_at_def split: if_splits)
    then have "length ds = nat k" using sp nk by simp
    then have "is_chain (heap w1) a ds b \<and> length ds \<le> nat k" using ch w1 by simp
    then show ?thesis using g by blast
  next
    fix d diff pl base w0
    assume dv: "dive (heap w) (nat (k - 1)) a = Some d"
      and ld: "layer_at (heap w) d = Some (DiffLayer diff)"
      and lp: "layer_at (heap w) (diffLayer.parent diff) = Some (DiffLayer pl)"
      and pe: "persist e fuel fz sh lim False (diffLayer.parent diff) w = Some (Inr base, w0)"
      and w1: "w1 = w0\<lparr>heap := set_parent (heap w0) d base\<rparr>"
    obtain ds1 ds2 where sp: "ds = ds1 @ d # ds2" "length ds1 = nat (k - 1)"
      using dive_some[OF ch ne dv] by blast
    have dc: "is_chain (heap w) d (d # ds2) b" using chain_split ch sp(1) by blast
    have dv': "d < length (heap w)" "heap w ! d = DiffLayer diff"
      using ld by (auto simp: layer_at_def split: if_splits)
    have pc: "is_chain (heap w) (diffLayer.parent diff) ds2 b" using dc dv' by (auto simp: chain_Cons_iff)
    then obtain ds3 where ds3: "ds2 = diffLayer.parent diff # ds3"
      using lp by (cases ds2) (auto simp: chain_Nil_iff chain_Cons_iff layer_at_def split: if_splits)
    have dist: "distinct ds" "b \<notin> set ds" using chain_distinct[OF ch] chain_disk_notin[OF ch] by auto
    have bnd: "set ds \<subseteq> {..<length (heap w)}" using chain_set_bound[OF ch] by simp
    have fr: "heap w0 ! c = heap w ! c" if "c \<in> set ds1 \<union> {d}" for c
    proof -
      have "c < length (heap w)" using that bnd sp(1) by auto
      moreover have "c \<notin> set (diffLayer.parent diff # ds3)" using that dist(1) sp(1) ds3 by auto
      moreover have "c \<noteq> b" using that dist(2) sp(1) by auto
      ultimately show ?thesis using persist_frame[OF pc[unfolded ds3] pe] by blast
    qed
    have pr: "length (heap w) \<le> base" "base < length (heap w0)" "is_disk (heap w0 ! base)"
      using persist_result[OF pe] by auto
    have ev: "evolves (heap w) (heap w0)" using persist_evolves[OF pe] .
    have len: "length (heap w) \<le> length (heap w1)" using ev w1 by (simp add: evolves_def)
    have d0: "heap w0 ! d = DiffLayer diff" using fr[of d] dv' by simp
    have dl0: "d < length (heap w0)" using dv'(1) ev by (auto simp: evolves_def)
    have d1: "heap w1 ! d = DiffLayer (diff\<lparr>diffLayer.parent := base\<rparr>)"
      unfolding w1 using d0 dl0 by (simp add: set_parent_nth)
    have nd: "d \<notin> set ds1" using dist(1) sp(1) by auto
    have f1: "\<forall>c\<in>set ds1. heap w1 ! c = heap w ! c"
      unfolding w1 using fr nd by (auto simp: set_parent_nth)
    have bd: "base \<noteq> d" using pr(1) dv'(1) by simp
    have b1: "diffLayer.parent (diff\<lparr>diffLayer.parent := base\<rparr>) < length (heap w1)"
      "is_disk (heap w1 ! diffLayer.parent (diff\<lparr>diffLayer.parent := base\<rparr>))"
      unfolding w1 using pr bd by (auto simp: set_parent_nth)
    have dl1: "d < length (heap w1)" unfolding w1 using dl0 by simp
    have "is_chain (heap w1) a (ds1 @ [d]) (diffLayer.parent (diff\<lparr>diffLayer.parent := base\<rparr>))"
      using chain_rebind[OF ch[unfolded sp(1)] len f1 dl1 d1 b1] .
    moreover have "length (ds1 @ [d]) = nat k" using sp(2) nk by simp
    ultimately have "is_chain (heap w1) a (ds1 @ [d]) base \<and> length (ds1 @ [d]) \<le> nat k" by simp
    then show ?thesis using g by blast
  qed
qed

section \<open>Every step keeps the heap well-formed\<close>

lemma add_wf:
  assumes "wf_heap (heap w)" "add e rt prt ns (t, w) = (err, t1, w1)"
  shows "wf_heap (heap w1)"
proof (cases "err = None")
  case False
  then have "w1 = w" using assms(2) unfolding add_def Update_def
    by (auto simp: Let_def split: option.splits if_splits)
  then show ?thesis using assms by simp
next
  case True
  then obtain p pl where p: "layer_at (heap w) p = Some pl"
    and w1: "heap w1 = heap w @ [DiffLayer (newDiffLayer e p (convertEmpty e rt) (ID pl + 1) ns)]"
    using assms(2) unfolding add_def Update_def
    by (auto simp: Let_def split: option.splits if_splits)
  let ?n = "length (heap w)"
  have pv: "p < ?n" using p by (auto simp: layer_at_def split: if_splits)
  obtain ds b where ch: "is_chain (heap w) p ds b" using assms(1) pv unfolding wf_heap_def by blast
  have new: "is_chain (heap w1) ?n (?n # ds) b"
    using chain_append[OF ch] unfolding w1
    by (simp add: chain_Cons_iff newDiffLayer_def)
  show "wf_heap (heap w1)" unfolding wf_heap_def
  proof (intro allI impI)
    fix c assume "c < length (heap w1)"
    then consider "c < ?n" | "c = ?n" using w1 by (auto simp: less_Suc_eq)
    then show "\<exists>ds b. is_chain (heap w1) c ds b"
    proof cases
      case 1
      then obtain ds' b' where "is_chain (heap w) c ds' b'" using assms(1) unfolding wf_heap_def by blast
      then show ?thesis using chain_append unfolding w1 by blast
    next
      case 2 then show ?thesis using new by blast
    qed
  qed
qed

lemma revert_evolves: "revert e a diff did w = (r, w1) \<Longrightarrow> evolves (heap w) (heap w1)"
  unfolding revert_def
  by (auto simp: evolves_refl Let_def layer_at_def split: option.splits layer.splits prod.splits if_splits
      intro!: evolves_stale_disk evolves_trans[OF evolves_stale_disk evolves_append])

lemma MarkStale_evolves: "MarkStale a w = Inr w1 \<Longrightarrow> evolves (heap w) (heap w1)"
  unfolding MarkStale_def
  by (auto simp: layer_at_def split: option.splits layer.splits if_splits
      intro!: evolves_stale_disk evolves_stale_diff)

lemma cap_evolves:
  assumes "cap e fuel rt k fz sh lim (t, w) = Some (err, t1, w1)"
  shows "evolves (heap w) (heap w1)"
proof -
  have sp: "evolves (heap w) (set_parent (heap w0) d base)"
    if "persist e fuel fz sh lim force a w = Some (Inr base, w0)" for force a base w0 d
  proof -
    have "base < length (heap w0)" "is_disk (heap w0 ! base)" using persist_result[OF that] by auto
    then show ?thesis using evolves_set_parent persist_evolves[OF that] evolves_trans by blast
  qed
  show ?thesis using assms unfolding cap_def
    by (auto simp: Let_def evolves_refl split: option.splits layer.splits if_splits sum.splits prod.splits
        dest: persist_evolves sp)
qed

lemma step_wf: "step e tw tw1 \<Longrightarrow> wf_heap (heap (snd tw)) \<Longrightarrow> wf_heap (heap (snd tw1))"
proof (induction rule: step.induct)
  case (step_add rt parentRoot ns tw err tw1)
  then show ?case using add_wf[of "snd tw" e rt parentRoot ns "fst tw" err "fst tw1" "snd tw1"] by simp
next
  case (step_cap fuel rt nlayers freezer stateHistory statelimit tw err tw1)
  then show ?case
    using cap_evolves[of e fuel rt nlayers freezer stateHistory statelimit "fst tw" "snd tw" err "fst tw1" "snd tw1"]
      evolves_wf by simp
next
  case (step_node fuel a ow path h w rn w1 t)
  then show ?case using node_heap by fastforce
qed (auto dest!: persist_evolves commit_evolves revert_evolves MarkStale_evolves intro: evolves_wf)

lemma steps_wf: "(step e)\<^sup>*\<^sup>* tw tw1 \<Longrightarrow> wf_heap (heap (snd tw)) \<Longrightarrow> wf_heap (heap (snd tw1))"
  by (induction rule: rtranclp_induct) (auto intro: step_wf)

section \<open>The removal loop\<close>

lemma shrinks_refl: "shrinks ls ls"
  by (simp add: shrinks_def)

lemma shrinks_trans: "shrinks ls ls1 \<Longrightarrow> shrinks ls1 ls2 \<Longrightarrow> shrinks ls ls2"
  by (simp add: shrinks_def)

lemma shrinks_delete: "shrinks ls (AList.delete k ls)"
  by (auto simp: shrinks_def AList.delete_conv split: if_splits)

lemma removeChildren_shrinks_aux:
  assumes "\<And>x s s1. remove fuel x s = Some s1 \<Longrightarrow> shrinks (fst s) (fst s1)"
  shows "removeChildren fuel cs s = Some s1 \<Longrightarrow> shrinks (fst s) (fst s1)"
proof (induction cs arbitrary: s)
  case Nil then show ?case by (simp add: shrinks_refl)
next
  case (Cons c cs)
  then obtain s0 where "remove fuel c s = Some s0" "removeChildren fuel cs s0 = Some s1"
    by (auto split: option.splits)
  then show ?case using assms Cons.IH shrinks_trans by blast
qed

lemma remove_shrinks: "remove fuel x s = Some s1 \<Longrightarrow> shrinks (fst s) (fst s1) \<and> map_of (fst s1) x = None"
proof (induction fuel arbitrary: x s s1)
  case 0 then show ?case by simp
next
  case (Suc fuel)
  obtain ls ch where s: "s = (ls, ch)" by (cases s)
  obtain ls1 ch1 where r: "removeChildren fuel (case map_of ch x of Some cs \<Rightarrow> cs | None \<Rightarrow> []) (AList.delete x ls, ch) = Some (ls1, ch1)"
    and s1: "s1 = (ls1, AList.delete x ch1)"
    using Suc.prems s by (auto split: option.splits)
  have "shrinks (AList.delete x ls) ls1"
    using removeChildren_shrinks_aux[OF _ r] Suc.IH by fastforce
  moreover have "map_of (AList.delete x ls) x = None" by (simp add: AList.delete_conv)
  ultimately have "shrinks ls ls1 \<and> map_of ls1 x = None"
    using shrinks_delete[of ls x] shrinks_trans unfolding shrinks_def by (metis not_Some_eq)
  then show ?case using s s1 by simp
qed

lemma removeChildren_shrinks: "removeChildren fuel cs s = Some s1 \<Longrightarrow> shrinks (fst s) (fst s1)"
  using removeChildren_shrinks_aux remove_shrinks by blast

lemma remove_path:
  "child_path ch (x # rs) \<Longrightarrow> remove fuel x (ls, ch) = Some s1 \<Longrightarrow> \<forall>r\<in>set (x # rs). map_of (fst s1) r = None"
proof (induction rs arbitrary: x fuel ls s1)
  case Nil
  then show ?case using remove_shrinks by fastforce
next
  case (Cons y rs)
  then obtain f where f: "fuel = Suc f" by (cases fuel) auto
  have cy: "map_of ch x = Some [y]" "child_path ch (y # rs)" using Cons.prems(1) by auto
  obtain ls1 ch1 where r: "remove f y (AList.delete x ls, ch) = Some (ls1, ch1)"
    and s1: "s1 = (ls1, AList.delete x ch1)"
    using Cons.prems(2) f cy(1) by (auto split: option.splits)
  have "\<forall>r\<in>set (y # rs). map_of ls1 r = None" using Cons.IH[OF cy(2) r] by simp
  moreover have "map_of (fst s1) x = None" using remove_shrinks[OF Cons.prems(2)] by simp
  ultimately show ?case using s1 by simp
qed

text \<open>The loop over the layers when a single entry is stale.\<close>

lemma removeStale_single:
  assumes "\<forall>r a. map_of ls r = Some a \<longrightarrow> r \<noteq> r0 \<longrightarrow> a < length h \<and> \<not> Stale (h ! a)"
  shows "removeStale fuel h xs (ls, ch) = Some (Inr s1) \<Longrightarrow> r0 \<in> fst ` set xs \<Longrightarrow>
         map_of ls r0 = Some b \<Longrightarrow> b < length h \<Longrightarrow> Stale (h ! b) \<Longrightarrow>
         \<exists>s0. remove fuel r0 (ls, ch) = Some s0 \<and> shrinks (fst s0) (fst s1)"
  using assms
proof (induction xs arbitrary: ls ch)
  case Nil then show ?case by simp
next
  case (Cons x xs)
  obtain rt a0 where x: "x = (rt, a0)" by (cases x)
  show ?case
  proof (cases "rt = r0")
    case True
    then obtain s0 where r: "remove fuel r0 (ls, ch) = Some s0" and l: "removeStale fuel h xs s0 = Some (Inr s1)"
      using Cons.prems(1,3,4,5) x by (auto simp: layer_at_def split: option.splits)
    have sh: "shrinks ls (fst s0)" using remove_shrinks[OF r] by simp
    have ns: "\<forall>r a. map_of (fst s0) r = Some a \<longrightarrow> a < length h \<and> \<not> Stale (h ! a)"
      using sh remove_shrinks[OF r] Cons.prems(6) unfolding shrinks_def by (metis option.distinct(1))
    have "shrinks (fst s0) (fst s1)" using l ns
    proof (induction xs arbitrary: s0)
      case Nil then show ?case by (simp add: shrinks_refl)
    next
      case (Cons y ys)
      obtain ry ay where y: "y = (ry, ay)" by (cases y)
      have "removeStale fuel h ys s0 = Some (Inr s1)"
        using Cons.prems y by (auto simp: layer_at_def split: option.splits if_splits)
      then show ?case using Cons.IH Cons.prems(2) by blast
    qed
    then show ?thesis using r by blast
  next
    case False
    have "removeStale fuel h xs (ls, ch) = Some (Inr s1)"
      using Cons.prems(1,6) x False by (auto simp: layer_at_def split: option.splits if_splits)
    moreover have "r0 \<in> fst ` set xs" using Cons.prems(2) x False by auto
    ultimately show ?thesis using Cons.IH Cons.prems(3,4,5,6) by blast
  qed
qed

section \<open>The children index\<close>

lemma childrenIndex_map_of:
  "childrenIndex h xs ch = Inr ch1 \<Longrightarrow>
   map_of ch1 pr =
     (if map fst (filter (\<lambda>(r, a). parent_root h a = Some pr) xs) = [] then map_of ch pr
      else Some ((case map_of ch pr of Some cs \<Rightarrow> cs | None \<Rightarrow> []) @
                 map fst (filter (\<lambda>(r, a). parent_root h a = Some pr) xs)))"
proof (induction xs arbitrary: ch)
  case Nil then show ?case by simp
next
  case (Cons x xs)
  obtain rt a where x: "x = (rt, a)" by (cases x)
  show ?case
  proof (cases "\<exists>dl. layer_at h a = Some (DiffLayer dl)")
    case False
    then have "childrenIndex h xs ch = Inr ch1" "parent_root h a = None"
      using Cons.prems x by (auto simp: parent_root_def split: option.splits layer.splits)
    then show ?thesis using Cons.IH[of ch] x by simp
  next
    case True
    then obtain dl where dl: "layer_at h a = Some (DiffLayer dl)" by blast
    then obtain pl where pl: "layer_at h (diffLayer.parent dl) = Some pl"
      using Cons.prems x by (auto split: option.splits)
    let ?ch = "AList.update (Root_of pl) ((case map_of ch (Root_of pl) of Some cs \<Rightarrow> cs | None \<Rightarrow> []) @ [rt]) ch"
    have r: "childrenIndex h xs ?ch = Inr ch1" using Cons.prems x dl pl by simp
    have p: "parent_root h a = Some (Root_of pl)" using dl pl by (simp add: parent_root_def)
    show ?thesis using Cons.IH[OF r] x p
      by (auto simp: update_conv' split: option.splits)
  qed
qed

lemma filter_unique:
  "distinct (map fst xs) \<Longrightarrow> (r0, a0) \<in> set xs \<Longrightarrow> P (r0, a0) \<Longrightarrow>
   (\<forall>(r, a)\<in>set xs. P (r, a) \<longrightarrow> r = r0) \<Longrightarrow> map fst (filter P xs) = [r0]"
proof (induction xs)
  case Nil then show ?case by simp
next
  case (Cons x xs)
  show ?case
  proof (cases "x = (r0, a0)")
    case True
    have "filter P xs = []"
    proof (rule ccontr)
      assume "filter P xs \<noteq> []"
      then obtain y where y: "y \<in> set xs" "P y" by (metis filter_False)
      then have "fst y = r0" using Cons.prems(4) by (cases y) auto
      then have "r0 \<in> fst ` set xs" using y(1) by force
      then show False using Cons.prems(1) True by simp
    qed
    then show ?thesis using True Cons.prems(3) by simp
  next
    case False
    then have in_xs: "(r0, a0) \<in> set xs" using Cons.prems(2) by simp
    have "\<not> P x"
    proof
      assume "P x"
      then have "fst x = r0" using Cons.prems(4) by (cases x) auto
      moreover have "r0 \<in> fst ` set xs" using in_xs by force
      ultimately show False using Cons.prems(1) by simp
    qed
    then show ?thesis using Cons.IH in_xs Cons.prems by auto
  qed
qed

lemma child_path_nth:
  "(\<And>j. Suc j < length l \<Longrightarrow> map_of ch (l ! j) = Some [l ! Suc j]) \<Longrightarrow> child_path ch l"
proof (induction l)
  case Nil then show ?case by simp
next
  case (Cons x l)
  show ?case
  proof (cases l)
    case Nil then show ?thesis by simp
  next
    case (Cons y rs)
    have "map_of ch x = Some [y]" using Cons.prems[of 0] Cons by simp
    moreover have "child_path ch l"
    proof (rule Cons.IH)
      fix j assume "Suc j < length l"
      then show "map_of ch (l ! j) = Some [l ! Suc j]" using Cons.prems[of "Suc j"] by simp
    qed
    ultimately show ?thesis using Cons by simp
  qed
qed

section \<open>What persist keeps of the diff layers\<close>

lemma diff_kept_refl: "diff_kept h h"
  by (simp add: diff_kept_def)

lemma diff_kept_trans: "diff_kept h h1 \<Longrightarrow> diff_kept h1 h2 \<Longrightarrow> diff_kept h h2"
  unfolding diff_kept_def by (metis (no_types, lifting))

lemma diff_kept_same:
  assumes "evolves h h1" and "\<forall>c<length h. \<forall>dl. h ! c = DiffLayer dl \<longrightarrow> h1 ! c = DiffLayer dl"
  shows "diff_kept h h1"
  unfolding diff_kept_def
proof (intro allI impI)
  fix c dl assume c: "c < length h" and dl: "h ! c = DiffLayer dl"
  have c1: "c < length h1" using assms(1) c by (auto simp: evolves_def)
  have s1: "h1 ! c = DiffLayer dl" using assms(2) c dl by blast
  have "parent_root h1 c = parent_root h c" if "parent_root h c \<noteq> None"
  proof -
    have p: "diffLayer.parent dl < length h" using that c dl
      by (auto simp: parent_root_def layer_at_def split: if_splits)
    then have "Root_of (h1 ! diffLayer.parent dl) = Root_of (h ! diffLayer.parent dl)"
      "diffLayer.parent dl < length h1"
      using assms(1) by (auto simp: evolves_def)
    then show ?thesis using c c1 dl s1 p by (simp add: parent_root_def layer_at_def)
  qed
  then show "\<exists>dl1. c < length h1 \<and> h1 ! c = DiffLayer dl1 \<and> diffLayer.stale dl1 = diffLayer.stale dl \<and>
           (parent_root h c \<noteq> None \<longrightarrow> parent_root h1 c = parent_root h c)"
    using c1 s1 by auto
qed

lemma commit_diff_same:
  "commit e fz sh lim a b force w = (r, w1) \<Longrightarrow> c < length (heap w) \<Longrightarrow> heap w ! c = DiffLayer dl \<Longrightarrow>
   heap w1 ! c = DiffLayer dl"
  unfolding commit_def
  by (auto simp: Let_def layer_at_def nth_append nth_list_update split: option.splits layer.splits prod.splits if_splits)

lemma diffToDisk_diff_kept: "diffToDisk e fz sh lim b force w = (r, w1) \<Longrightarrow> diff_kept (heap w) (heap w1)"
proof (rule diff_kept_same)
  assume d: "diffToDisk e fz sh lim b force w = (r, w1)"
  show "evolves (heap w) (heap w1)" using diffToDisk_evolves[OF d] .
  show "\<forall>c<length (heap w). \<forall>dl. heap w ! c = DiffLayer dl \<longrightarrow> heap w1 ! c = DiffLayer dl"
    using d unfolding diffToDisk_def
    by (auto split: option.splits layer.splits dest: commit_diff_same)
qed

lemma set_parent_diff_kept:
  assumes "a < length h" "h ! a = DiffLayer dl0" "p < length h" "p \<noteq> a"
    and "parent_root h a = Some (Root_of (h ! p))"
  shows "diff_kept h (set_parent h a p)"
  unfolding diff_kept_def
proof (intro allI impI)
  fix c dl assume c: "c < length h" and dl: "h ! c = DiffLayer dl"
  let ?h = "set_parent h a p"
  have root: "Root_of (?h ! q) = Root_of (h ! q)" for q
    using assms(1,2) by (auto simp: set_parent_nth)
  have pr: "parent_root ?h c = parent_root h c" if "parent_root h c \<noteq> None"
  proof (cases "c = a")
    case True
    have "?h ! a = DiffLayer (dl0\<lparr>diffLayer.parent := p\<rparr>)" using assms(1,2) by (simp add: set_parent_nth)
    then have "parent_root ?h a = Some (Root_of (?h ! p))"
      using assms(1,3) by (simp add: parent_root_def layer_at_def)
    then show ?thesis using True root assms(5) by simp
  next
    case False
    then have "?h ! c = DiffLayer dl" using dl by (simp add: set_parent_nth)
    then show ?thesis using c dl root by (simp add: parent_root_def layer_at_def)
  qed
  show "\<exists>dl1. c < length ?h \<and> ?h ! c = DiffLayer dl1 \<and> diffLayer.stale dl1 = diffLayer.stale dl \<and>
           (parent_root h c \<noteq> None \<longrightarrow> parent_root ?h c = parent_root h c)"
    using c dl pr assms(1,2) by (auto simp: set_parent_nth)
qed

lemma persist_diff_kept:
  "persist e fuel fz sh lim force a w = Some (r, w1) \<Longrightarrow> diff_kept (heap w) (heap w1)"
proof (induction fuel arbitrary: a w r w1)
  case 0 then show ?case by simp
next
  case (Suc fuel)
  show ?case
  proof (cases "\<exists>dl. layer_at (heap w) a = Some (DiffLayer dl)")
    case False
    then show ?thesis using Suc.prems persist_not_diff[of w a] by (auto simp: diff_kept_refl)
  next
    case True
    then obtain dl where dl: "layer_at (heap w) a = Some (DiffLayer dl)" by blast
    then have a: "a < length (heap w)" "heap w ! a = DiffLayer dl"
      by (auto simp: layer_at_def split: if_splits)
    show ?thesis
    proof (cases "\<exists>pl. layer_at (heap w) (diffLayer.parent dl) = Some (DiffLayer pl)")
      case False
      then have d: "diffToDisk e fz sh lim a force w = (r, w1)"
        using Suc.prems persist_Suc_disk[OF dl] by auto
      then show ?thesis by (rule diffToDisk_diff_kept)
    next
      case True
      then obtain pl where pl: "layer_at (heap w) (diffLayer.parent dl) = Some (DiffLayer pl)" by blast
      note unf = persist_Suc_diff[OF dl pl, of e fuel fz sh lim force]
      show ?thesis
      proof (cases "persist e fuel fz sh lim force (diffLayer.parent dl) w")
        case None then show ?thesis using Suc.prems unf by simp
      next
        case (Some res)
        obtain r0 w0 where res: "res = (r0, w0)" by (cases res)
        have ih: "diff_kept (heap w) (heap w0)" using Suc.IH Some res by blast
        show ?thesis
        proof (cases r0)
          case (Inl err)
          then show ?thesis using Suc.prems unf Some res ih by auto
        next
          case (Inr result)
          let ?w2 = "w0\<lparr>heap := set_parent (heap w0) a result\<rparr>"
          have d: "diffToDisk e fz sh lim a force ?w2 = (r, w1)"
            using Suc.prems unf Some res Inr by simp
          have pr: "length (heap w) \<le> result" "result < length (heap w0)"
            "Root_of (heap w0 ! result) = Root_of (heap w ! diffLayer.parent dl)"
            using persist_result[OF Some[unfolded res Inr]] by auto
          have prh: "parent_root (heap w) a = Some (Root_of (heap w ! diffLayer.parent dl))"
            using dl pl by (auto simp: parent_root_def layer_at_def split: if_splits)
          obtain dl0 where dl0: "a < length (heap w0)" "heap w0 ! a = DiffLayer dl0"
            "parent_root (heap w0) a = parent_root (heap w) a"
            using ih a prh unfolding diff_kept_def by fastforce
          have "diff_kept (heap w0) (heap ?w2)"
            using set_parent_diff_kept[OF dl0(1,2) pr(2)] pr a(1) dl0(3) prh by simp
          moreover have "diff_kept (heap ?w2) (heap w1)" using diffToDisk_diff_kept[OF d] .
          ultimately show ?thesis using ih diff_kept_trans by blast
        qed
      qed
    qed
  qed
qed

lemma commit_marks:
  "commit e fz sh lim a b force w = (Inr n, w1) \<Longrightarrow> a < length (heap w1) \<and> Stale (heap w1 ! a)"
  unfolding commit_def
  by (auto simp: Let_def layer_at_def nth_append split: option.splits layer.splits prod.splits if_splits)

lemma persist_marks_bottom:
  "is_chain (heap w) a (a # ds) b \<Longrightarrow> persist e fuel fz sh lim force a w = Some (Inr base, w1) \<Longrightarrow>
   b < length (heap w1) \<and> Stale (heap w1 ! b)"
proof (induction ds arbitrary: a fuel base w1)
  case Nil
  then obtain dl where dl: "a < length (heap w)" "heap w ! a = DiffLayer dl"
      "diffLayer.parent dl = b" "b < length (heap w)" "is_disk (heap w ! b)"
    by (auto simp: chain_Cons_iff chain_Nil_iff)
  obtain f where f: "fuel = Suc f" using Nil.prems(2) by (cases fuel) auto
  have la: "layer_at (heap w) a = Some (DiffLayer dl)" using dl by (simp add: layer_at_def)
  have "\<And>pl. layer_at (heap w) (diffLayer.parent dl) \<noteq> Some (DiffLayer pl)"
    using dl by (auto simp: layer_at_def)
  then have "diffToDisk e fz sh lim a force w = (Inr base, w1)"
    using Nil.prems(2) f persist_Suc_disk[OF la] by auto
  then show ?case using la dl(3) unfolding diffToDisk_def
    by (auto split: option.splits layer.splits dest: commit_marks)
next
  case (Cons p ds)
  then obtain dl where dl: "a < length (heap w)" "heap w ! a = DiffLayer dl"
      "is_chain (heap w) (diffLayer.parent dl) (p # ds) b"
    by (auto simp: chain_Cons_iff)
  then have pp: "diffLayer.parent dl = p" by (auto simp: chain_Cons_iff)
  obtain pl where pl: "layer_at (heap w) p = Some (DiffLayer pl)"
    using dl(3) pp by (auto simp: chain_Cons_iff layer_at_def)
  obtain f where f: "fuel = Suc f" using Cons.prems(2) by (cases fuel) auto
  have la: "layer_at (heap w) a = Some (DiffLayer dl)" using dl by (simp add: layer_at_def)
  note unf = persist_Suc_diff[OF la pl[folded pp], of e f fz sh lim force]
  obtain result w0 where r0: "persist e f fz sh lim force p w = Some (Inr result, w0)"
    and d: "diffToDisk e fz sh lim a force (w0\<lparr>heap := set_parent (heap w0) a result\<rparr>) = (Inr base, w1)"
    using Cons.prems(2) f unf pp by (auto split: option.splits sum.splits prod.splits)
  have "b < length (heap w0) \<and> Stale (heap w0 ! b)" using Cons.IH[OF dl(3)[unfolded pp] r0] .
  then have "layer_at (heap w0) b = Some (heap w0 ! b)" "Stale (heap w0 ! b)" by (auto simp: layer_at_def)
  moreover have "stale_kept (heap w0) (heap w1)"
    using stale_kept_set_parent diffToDisk_stale_kept[OF d] stale_kept_trans by fastforce
  ultimately show ?case unfolding stale_kept_def by (auto simp: layer_at_def split: if_splits)
qed

section \<open>Capping a tree that is a single chain\<close>

lemma chain_nth_parent:
  "is_chain h a ds b \<Longrightarrow> i < length ds \<Longrightarrow>
   ds ! i < length h \<and> (\<exists>dl. h ! (ds ! i) = DiffLayer dl \<and> diffLayer.parent dl = (ds @ [b]) ! Suc i)"
proof (induction ds arbitrary: a i)
  case Nil then show ?case by simp
next
  case (Cons d ds)
  then obtain dl where dl: "a = d" "d < length h" "h ! d = DiffLayer dl" "is_chain h (diffLayer.parent dl) ds b"
    by (auto simp: chain_Cons_iff)
  show ?case
  proof (cases i)
    case 0
    have "diffLayer.parent dl = (ds @ [b]) ! 0" using dl(4) by (cases ds) (auto simp: chain_Nil_iff chain_Cons_iff)
    then show ?thesis using 0 dl by simp
  next
    case (Suc j)
    then show ?thesis using Cons.IH[OF dl(4), of j] Cons.prems(2) by simp
  qed
qed

lemma chain_bottom: "is_chain h a ds b \<Longrightarrow> b < length h \<and> is_disk (h ! b)"
  by (induction ds arbitrary: a) (auto simp: chain_Nil_iff chain_Cons_iff)

lemma chain_parent_root:
  assumes "is_chain h a ds b" "i < length ds"
  shows "parent_root h (ds ! i) = Some (Root_of (h ! ((ds @ [b]) ! Suc i)))"
proof -
  obtain dl where dl: "ds ! i < length h" "h ! (ds ! i) = DiffLayer dl" "diffLayer.parent dl = (ds @ [b]) ! Suc i"
    using chain_nth_parent[OF assms] by blast
  have "(ds @ [b]) ! Suc i \<in> set (ds @ [b])" using assms(2) by (intro nth_mem) simp
  then have "(ds @ [b]) ! Suc i < length h"
    using chain_set_bound[OF assms(1)] by auto
  then show ?thesis using dl by (simp add: parent_root_def layer_at_def)
qed

lemma length_clearjunk_card: "length (AList.clearjunk xs) = card (fst ` set xs)"
proof -
  have "length (AList.clearjunk xs) = length (map fst (AList.clearjunk xs))" by simp
  also have "\<dots> = card (set (map fst (AList.clearjunk xs)))"
    using distinct_card[OF distinct_clearjunk] by metis
  also have "\<dots> = card (fst ` set xs)" using clearjunk_keys_set[of xs] by simp
  finally show ?thesis .
qed

lemma cap_tree_cases:
  assumes "cap e fuel rt k fz sh lim (t, w) = Some (None, t1, w1)" and "k \<noteq> 0"
  shows "\<exists>a dl. get e t rt = Some a \<and> layer_at (heap w) a = Some (DiffLayer dl) \<and>
          ((dive (heap w) (nat (k - 1)) a = None \<and> w1 = w \<and> t1 = t) \<or>
           (\<exists>d diff. dive (heap w) (nat (k - 1)) a = Some d \<and> layer_at (heap w) d = Some (DiffLayer diff) \<and>
              ((\<exists>pl. layer_at (heap w) (diffLayer.parent diff) = Some (DiskLayer pl) \<and> w1 = w \<and> t1 = t) \<or>
               (\<exists>pl base w0 bl children ls2 ch2.
                  layer_at (heap w) (diffLayer.parent diff) = Some (DiffLayer pl) \<and>
                  persist e fuel fz sh lim False (diffLayer.parent diff) w = Some (Inr base, w0) \<and>
                  w1 = w0\<lparr>heap := set_parent (heap w0) d base\<rparr> \<and>
                  layer_at (heap w0) base = Some bl \<and>
                  childrenIndex (heap w1) (AList.clearjunk (AList.update (Root_of bl) base (layers t))) [] = Inr children \<and>
                  removeStale fuel (heap w1) (AList.clearjunk (AList.update (Root_of bl) base (layers t)))
                    (AList.update (Root_of bl) base (layers t), children) = Some (Inr (ls2, ch2)) \<and>
                  t1 = t\<lparr>layers := ls2\<rparr>))))"
  using assms unfolding cap_def
  by (auto simp: Let_def split: option.splits layer.splits sum.splits prod.splits if_splits)

lemma cap_linear_count:
  assumes lin: "linear_tree t (heap w) ds b"
    and g: "get e t rt = Some (hd ds)"
    and k: "0 < k"
    and c: "cap e fuel rt k fz sh lim (t, w) = Some (None, t1, w1)"
  shows "len t1 \<le> nat k + 1"
proof -
  let ?h = "heap w"
  let ?es = "layers t"
  let ?cs = "ds @ [b]"
  let ?key = "\<lambda>c. Root_of (?h ! c)"
  have ne: "ds \<noteq> []" and ch: "is_chain ?h (hd ds) ds b" and keys: "keys_ok t ?h"
    and dk: "distinct (map fst ?es)" and sv: "set (map snd ?es) = set ?cs"
    and le: "length ?es = length ds + 1" and ns: "\<forall>c\<in>set ds. \<not> Stale (?h ! c)"
    using lin unfolding linear_tree_def by auto
  have dcs: "distinct ?cs" using chain_distinct[OF ch] chain_disk_notin[OF ch] by simp
  have bnd: "set ds \<subseteq> {..<length ?h}" "b < length ?h" "is_disk (?h ! b)"
    using chain_set_bound[OF ch] chain_bottom[OF ch] by auto
  have entry: "(?key c, c) \<in> set ?es" if "c \<in> set ?cs" for c
  proof -
    have "c \<in> snd ` set ?es" using that sv by simp
    then obtain r where "(r, c) \<in> set ?es" by force
    then show ?thesis using keys unfolding keys_ok_def by auto
  qed
  have entry_in: "a \<in> set ?cs \<and> r = ?key a" if "(r, a) \<in> set ?es" for r a
  proof -
    have "a \<in> snd ` set ?es" using that by force
    then show ?thesis using sv keys that unfolding keys_ok_def by auto
  qed
  have inj: "c = c'" if "c \<in> set ?cs" "c' \<in> set ?cs" "?key c = ?key c'" for c c'
    using eq_key_imp_eq_value[OF dk entry[OF that(1)]] entry[OF that(2)] that(3) by simp
  have mo: "map_of ?es (?key c) = Some c" if "c \<in> set ?cs" for c
    using entry[OF that] dk by simp
  have len_t: "len t = length ds + 1" using dk le by (simp add: len_def)
  have k0: "k \<noteq> 0" using k by simp
  have nk: "Suc (nat (k - 1)) = nat k" using k by simp
  obtain a dl where g': "get e t rt = Some a" and la: "layer_at ?h a = Some (DiffLayer dl)"
    and cases: "(dive ?h (nat (k - 1)) a = None \<and> w1 = w \<and> t1 = t) \<or>
           (\<exists>d diff. dive ?h (nat (k - 1)) a = Some d \<and> layer_at ?h d = Some (DiffLayer diff) \<and>
              ((\<exists>pl. layer_at ?h (diffLayer.parent diff) = Some (DiskLayer pl) \<and> w1 = w \<and> t1 = t) \<or>
               (\<exists>pl base w0 bl children ls2 ch2.
                  layer_at ?h (diffLayer.parent diff) = Some (DiffLayer pl) \<and>
                  persist e fuel fz sh lim False (diffLayer.parent diff) w = Some (Inr base, w0) \<and>
                  w1 = w0\<lparr>heap := set_parent (heap w0) d base\<rparr> \<and>
                  layer_at (heap w0) base = Some bl \<and>
                  childrenIndex (heap w1) (AList.clearjunk (AList.update (Root_of bl) base ?es)) [] = Inr children \<and>
                  removeStale fuel (heap w1) (AList.clearjunk (AList.update (Root_of bl) base ?es))
                    (AList.update (Root_of bl) base ?es, children) = Some (Inr (ls2, ch2)) \<and>
                  t1 = t\<lparr>layers := ls2\<rparr>)))"
    using cap_tree_cases[OF c k0] by blast
  have a: "a = hd ds" using g g' by simp
  have cha: "is_chain ?h a ds b" using ch a by simp
  from cases show ?thesis
  proof (elim disjE conjE exE)
    assume dn: "dive ?h (nat (k - 1)) a = None" and "t1 = t"
    then show ?thesis using dive_none[OF cha dn] len_t nk by simp
  next
    fix d diff pl
    assume dv: "dive ?h (nat (k - 1)) a = Some d"
      and ld: "layer_at ?h d = Some (DiffLayer diff)"
      and lp: "layer_at ?h (diffLayer.parent diff) = Some (DiskLayer pl)" and t1: "t1 = t"
    obtain ds1 ds2 where sp: "ds = ds1 @ d # ds2" "length ds1 = nat (k - 1)"
      using dive_some[OF cha ne dv] by blast
    have "is_chain ?h d (d # ds2) b" using chain_split cha sp(1) by blast
    then have "ds2 = []" using ld lp
      by (cases ds2) (auto simp: chain_Cons_iff layer_at_def split: if_splits)
    then show ?thesis using sp nk len_t t1 by simp
  next
    fix d diff pl base w0 bl children ls2 ch2
    assume dv: "dive ?h (nat (k - 1)) a = Some d"
      and ld: "layer_at ?h d = Some (DiffLayer diff)"
      and lp: "layer_at ?h (diffLayer.parent diff) = Some (DiffLayer pl)"
      and pe: "persist e fuel fz sh lim False (diffLayer.parent diff) w = Some (Inr base, w0)"
      and w1: "w1 = w0\<lparr>heap := set_parent (heap w0) d base\<rparr>"
      and lb: "layer_at (heap w0) base = Some bl"
      and ci: "childrenIndex (heap w1) (AList.clearjunk (AList.update (Root_of bl) base ?es)) [] = Inr children"
      and rs: "removeStale fuel (heap w1) (AList.clearjunk (AList.update (Root_of bl) base ?es))
                    (AList.update (Root_of bl) base ?es, children) = Some (Inr (ls2, ch2))"
      and t1: "t1 = t\<lparr>layers := ls2\<rparr>"
    let ?p = "diffLayer.parent diff"
    let ?hp = "heap w0"
    let ?hq = "heap w1"
    obtain ds1 ds2 where sp: "ds = ds1 @ d # ds2" "length ds1 = nat (k - 1)"
      using dive_some[OF cha ne dv] by blast
    have dc: "is_chain ?h d (d # ds2) b" using chain_split cha sp(1) by blast
    have dv': "d < length ?h" "?h ! d = DiffLayer diff"
      using ld by (auto simp: layer_at_def split: if_splits)
    have pc: "is_chain ?h ?p ds2 b" using dc dv' by (auto simp: chain_Cons_iff)
    then obtain ds3 where ds3: "ds2 = ?p # ds3"
      using lp by (cases ds2) (auto simp: chain_Nil_iff chain_Cons_iff layer_at_def split: if_splits)
    have pch: "is_chain ?h ?p (?p # ds3) b" using pc ds3 by simp
    have dsd: "ds = ds1 @ d # ?p # ds3" using sp(1) ds3 by simp
    have p_in: "?p \<in> set ds" "d \<in> set ds" using dsd by auto
    have pv: "?p < length ?h" using bnd(1) p_in by auto
    \<comment> \<open>the heap after the persist and the re-parenting\<close>
    have pr: "length ?h \<le> base" "base < length ?hp" "?hp ! base = bl" "is_disk bl" "\<not> Stale bl"
      "Root_of bl = ?key ?p"
      using persist_result[OF pe] lb by (auto simp: layer_at_def split: if_splits)
    have ev: "evolves ?h ?hp" using persist_evolves[OF pe] .
    have k0': "diff_kept ?h ?hp" using persist_diff_kept[OF pe] .
    have prd: "parent_root ?h d = Some (?key ?p)"
      using dv' pv by (simp add: parent_root_def layer_at_def)
    obtain dl0 where dl0: "d < length ?hp" "?hp ! d = DiffLayer dl0" "parent_root ?hp d = parent_root ?h d"
      using k0' dv' prd unfolding diff_kept_def by fastforce
    have bd: "base \<noteq> d" using pr(1) dv'(1) by simp
    have "diff_kept ?hp (set_parent ?hp d base)"
      using set_parent_diff_kept[OF dl0(1,2) pr(2) bd] dl0(3) prd pr(3,6) by simp
    then have kept: "diff_kept ?h ?hq" using k0' diff_kept_trans w1 by simp
    have h2n: "?hq ! c = (if c = d then DiffLayer (dl0\<lparr>diffLayer.parent := base\<rparr>) else ?hp ! c)" for c
      unfolding w1 using dl0 by (simp add: set_parent_nth)
    have len2: "length ?hq = length ?hp" unfolding w1 by simp
    have bst: "b < length ?hq" "Stale (?hq ! b)"
    proof -
      have "b < length ?hp \<and> Stale (?hp ! b)" using persist_marks_bottom[OF pch pe] .
      moreover have "b \<noteq> d" using dcs p_in by auto
      ultimately show "b < length ?hq" "Stale (?hq ! b)" using h2n len2 by auto
    qed
    have base2: "base < length ?hq" "?hq ! base = bl" using pr bd h2n len2 by auto
    have diff2: "\<exists>dl1. c < length ?hq \<and> ?hq ! c = DiffLayer dl1 \<and> \<not> diffLayer.stale dl1 \<and>
                   parent_root ?hq c = parent_root ?h c" if cin: "c \<in> set ds" for c
    proof -
      obtain i where i: "i < length ds" "ds ! i = c" using cin by (auto simp: in_set_conv_nth)
      obtain dlc where dlc: "c < length ?h" "?h ! c = DiffLayer dlc"
        using chain_nth_parent[OF cha i(1)] i(2) by auto
      have "parent_root ?h c \<noteq> None" using chain_parent_root[OF cha i(1)] i(2) by simp
      moreover have "\<not> diffLayer.stale dlc" using ns cin dlc by auto
      ultimately show ?thesis using kept dlc unfolding diff_kept_def by fastforce
    qed
    \<comment> \<open>the entries of the tree after the new disk layer is stored\<close>
    let ?ls1 = "AList.update (?key ?p) base ?es"
    have ls1: "AList.update (Root_of bl) base ?es = ?ls1" using pr(6) by simp
    have d1: "distinct (map fst ?ls1)" using dk by (rule distinct_update)
    have cj: "AList.clearjunk ?ls1 = ?ls1" using d1 by simp
    have m1: "map_of ?ls1 = (map_of ?es)(?key ?p \<mapsto> base)" by (rule update_conv')
    have ent1: "(r = ?key ?p \<and> a' = base) \<or> (r \<noteq> ?key ?p \<and> a' \<in> set ?cs \<and> a' \<noteq> ?p \<and> r = ?key a')"
      if "map_of ?ls1 r = Some a'" for r a'
    proof (cases "r = ?key ?p")
      case True then show ?thesis using that m1 by simp
    next
      case False
      then have "(r, a') \<in> set ?es" using that m1 by (auto dest: map_of_SomeD)
      then show ?thesis using entry_in False by blast
    qed
    have ci': "childrenIndex ?hq ?ls1 [] = Inr children" using ci ls1 cj by simp
    have rs': "removeStale fuel ?hq ?ls1 (?ls1, children) = Some (Inr (ls2, ch2))" using rs ls1 cj by simp
    \<comment> \<open>only the old disk layer is stale\<close>
    have b_in: "b \<in> set ?cs" by simp
    have pb: "?key ?p \<noteq> ?key b" using inj[of ?p b] p_in chain_disk_notin[OF ch] by auto
    have mb: "map_of ?ls1 (?key b) = Some b" using m1 mo[OF b_in] pb by simp
    have live: "\<forall>r a'. map_of ?ls1 r = Some a' \<longrightarrow> r \<noteq> ?key b \<longrightarrow> a' < length ?hq \<and> \<not> Stale (?hq ! a')"
    proof (intro allI impI)
      fix r a' assume m: "map_of ?ls1 r = Some a'" and rb: "r \<noteq> ?key b"
      from ent1[OF m] show "a' < length ?hq \<and> \<not> Stale (?hq ! a')"
      proof
        assume "r = ?key ?p \<and> a' = base"
        then show ?thesis using base2 pr(5) by simp
      next
        assume x: "r \<noteq> ?key ?p \<and> a' \<in> set ?cs \<and> a' \<noteq> ?p \<and> r = ?key a'"
        then have "a' \<in> set ds" using rb by auto
        then show ?thesis using diff2 by fastforce
      qed
    qed
    have kb_in: "?key b \<in> fst ` set ?ls1" using mb by (force dest: map_of_SomeD)
    obtain s0 where rem: "remove fuel (?key b) (?ls1, children) = Some s0" and sh0: "shrinks (fst s0) ls2"
      using removeStale_single[OF live rs' kb_in mb bst] by auto
    \<comment> \<open>the children index links the flattened layers from the bottom up\<close>
    let ?low = "ds3 @ [b]"
    let ?rs = "map ?key (rev ?low)"
    have low_sub: "set ?low \<subseteq> set ?cs" using dsd by auto
    have low_d: "distinct ?low" using dcs dsd by auto
    have child: "map_of children (?key (?low ! Suc i)) = Some [?key (ds3 ! i)]" if i: "i < length ds3" for i
    proof -
      let ?y = "ds3 ! i"
      let ?x = "?low ! Suc i"
      have y_in: "?y \<in> set ds3" using i by simp
      then have y_ds: "?y \<in> set ds" using dsd by simp
      have y_p: "?y \<noteq> ?p" using dcs dsd y_in by auto
      have x_cs: "?x \<in> set ?cs" using low_sub i by (metis length_append_singleton nth_mem Suc_less_eq subsetD)
      have pry: "parent_root ?h ?y = Some (?key ?x)"
        using chain_parent_root[OF pch, of "Suc i"] i by simp
      have pry2: "parent_root ?hq ?y = Some (?key ?x)" using diff2[OF y_ds] pry by auto
      have ky: "?key ?y \<noteq> ?key ?p" using inj[of ?y ?p] y_ds p_in y_p by auto
      have "map_of ?ls1 (?key ?y) = Some ?y" using m1 mo[of ?y] y_ds ky by simp
      then have in1: "(?key ?y, ?y) \<in> set ?ls1" by (rule map_of_SomeD)
      have uniq: "\<forall>(r, a')\<in>set ?ls1. parent_root ?hq a' = Some (?key ?x) \<longrightarrow> r = ?key ?y"
      proof (intro ballI, clarify)
        fix r a' assume m: "(r, a') \<in> set ?ls1" and pa: "parent_root ?hq a' = Some (?key ?x)"
        have mm: "map_of ?ls1 r = Some a'" using m d1 by simp
        from ent1[OF mm] show "r = ?key ?y"
        proof
          assume "r = ?key ?p \<and> a' = base"
          then have "parent_root ?hq a' = None"
            using base2 pr(4) by (cases bl) (auto simp: parent_root_def layer_at_def)
          then show ?thesis using pa by simp
        next
          assume x: "r \<noteq> ?key ?p \<and> a' \<in> set ?cs \<and> a' \<noteq> ?p \<and> r = ?key a'"
          have "a' \<noteq> b"
          proof
            assume "a' = b"
            moreover have "is_disk (?hq ! b)" using ev bnd(2,3) h2n[of b] dcs p_in
              by (auto simp: evolves_def)
            ultimately have "parent_root ?hq a' = None"
              using bst(1) by (cases "?hq ! b") (auto simp: parent_root_def layer_at_def)
            then show False using pa by simp
          qed
          then have a_ds: "a' \<in> set ds" using x by auto
          then obtain j where j: "j < length ds" "ds ! j = a'" by (auto simp: in_set_conv_nth)
          obtain iy where iy: "iy < length ds" "ds ! iy = ?y" using y_ds by (auto simp: in_set_conv_nth)
          have "parent_root ?h a' = Some (?key (?cs ! Suc j))"
            using chain_parent_root[OF cha j(1)] j(2) by simp
          then have e1: "?key (?cs ! Suc j) = ?key ?x" using diff2[OF a_ds] pa by auto
          have "parent_root ?h ?y = Some (?key (?cs ! Suc iy))"
            using chain_parent_root[OF cha iy(1)] iy(2) by simp
          then have e2: "?key (?cs ! Suc iy) = ?key ?x" using pry by simp
          have lj: "Suc j < length ?cs" and li: "Suc iy < length ?cs" using j(1) iy(1) by simp_all
          have "?cs ! Suc j \<in> set ?cs" "?cs ! Suc iy \<in> set ?cs"
            using nth_mem[OF lj] nth_mem[OF li] by blast+
          then have "?cs ! Suc j = ?cs ! Suc iy" using inj e1 e2 by metis
          then have "Suc j = Suc iy" using dcs j(1) iy(1) by (simp add: nth_eq_iff_index_eq)
          then show ?thesis using x j iy by simp
        qed
      qed
      have "map fst (filter (\<lambda>(r, a'). parent_root ?hq a' = Some (?key ?x)) ?ls1) = [?key ?y]"
        using filter_unique[OF d1 in1, of "\<lambda>(r, a'). parent_root ?hq a' = Some (?key ?x)"] pry2 uniq by auto
      then show ?thesis using childrenIndex_map_of[OF ci', of "?key ?x"] by simp
    qed
    have path: "child_path children ?rs"
    proof (rule child_path_nth)
      fix j assume j: "Suc j < length ?rs"
      let ?m = "length ds3"
      have jm: "j < ?m" using j by simp
      have r1: "?rs ! j = ?key (?low ! (?m - j))"
        using j by (simp add: rev_nth del: rev_append)
      have r2: "?rs ! Suc j = ?key (?low ! (?m - Suc j))"
        using j by (simp add: rev_nth del: rev_append)
      have lt: "?m - Suc j < ?m" using jm by simp
      then have "map_of children (?key (?low ! Suc (?m - Suc j))) = Some [?key (ds3 ! (?m - Suc j))]"
        by (rule child)
      moreover have "Suc (?m - Suc j) = ?m - j" using jm by simp
      moreover have "?low ! (?m - Suc j) = ds3 ! (?m - Suc j)" using lt by (simp add: nth_append)
      ultimately show "map_of children (?rs ! j) = Some [?rs ! Suc j]" using r1 r2 by simp
    qed
    have rs_eq: "?rs = ?key b # map ?key (rev ds3)" by simp
    have gone0: "\<forall>r\<in>set ?rs. map_of (fst s0) r = None"
      using remove_path[OF path[unfolded rs_eq] rem] rs_eq by simp
    have gone: "\<forall>r\<in>set ?rs. map_of ls2 r = None"
      using gone0 sh0 unfolding shrinks_def by (metis not_Some_eq)
    have sh1: "shrinks ?ls1 ls2" using remove_shrinks[OF rem] sh0 shrinks_trans by fastforce
    \<comment> \<open>counting\<close>
    have dom1: "fst ` set ?ls1 = fst ` set ?es"
      using dom_update[of "?key ?p" base ?es] entry[of ?p] p_in by force
    have sub: "fst ` set ls2 \<subseteq> fst ` set ?es - set ?rs"
    proof
      fix r assume "r \<in> fst ` set ls2"
      then obtain a' where m2: "map_of ls2 r = Some a'"
        by (metis domD dom_map_of_conv_image_fst)
      then have "map_of ?ls1 r = Some a'" using sh1 unfolding shrinks_def by blast
      then have "r \<in> fst ` set ?ls1" by (force dest: map_of_SomeD)
      moreover have "r \<notin> set ?rs" using gone m2 by auto
      ultimately show "r \<in> fst ` set ?es - set ?rs" using dom1 by simp
    qed
    have rs_sub: "set ?rs \<subseteq> fst ` set ?es"
    proof
      fix r assume "r \<in> set ?rs"
      then obtain c where "c \<in> set ?low" "r = ?key c" by auto
      then show "r \<in> fst ` set ?es" using entry[of c] low_sub by force
    qed
    have rs_d: "distinct ?rs"
    proof -
      have "inj_on ?key (set (rev ?low))"
      proof (rule inj_onI)
        fix x y assume "x \<in> set (rev ?low)" "y \<in> set (rev ?low)" and e: "?key x = ?key y"
        then have "x \<in> set ?cs" "y \<in> set ?cs" using low_sub by auto
        then show "x = y" using inj e by blast
      qed
      then show ?thesis using low_d by (simp add: distinct_map del: rev_append)
    qed
    have c_es: "card (fst ` set ?es) = length ds + 1"
      using distinct_card[OF dk] le by simp
    have c_rs: "card (set ?rs) = length ds3 + 1" using distinct_card[OF rs_d] by simp
    have "card (fst ` set ls2) \<le> card (fst ` set ?es - set ?rs)"
      using sub by (intro card_mono) auto
    also have "\<dots> = card (fst ` set ?es) - card (set ?rs)"
      using rs_sub by (intro card_Diff_subset) auto
    also have "\<dots> = nat k + 1" using c_es c_rs dsd sp(2) nk by simp
    finally show ?thesis using t1 by (simp add: len_def length_clearjunk_card)
  qed
qed

text \<open>
  Claim C3, amended. After any sequence of operations on a disk layer (updates, caps
  and the others), a successful \<^verbatim>\<open>cap\<close> with \<open>k > 0\<close> layers leaves at most \<open>k + 1\<close>
  layers on the parent chain that starts at the layer of the requested root and ends
  with the disk layer, the disk layer counted. Layers that are not on this chain are
  not counted: \<^verbatim>\<open>cap\<close> flattens downwards from the requested root only. The tree as a
  whole holds at most \<open>k + 1\<close> layers when its entries are exactly the layers of one
  chain, every layer of the chain (its diff layers, none of them stale, and its disk
  layer) under an entry of its own, so that no two of them have the same root, and
  the requested root is the one of the head of the chain.
\<close>

theorem cap_bounds_chain:
  assumes "(step e)\<^sup>*\<^sup>* (disk_tree d x) (t, w)"
    and "0 < k"
    and "cap e fuel rt k freezer stateHistory statelimit (t, w) = Some (None, t1, w1)"
  shows "(\<exists>a ds b. get e t rt = Some a \<and> is_chain (heap w1) a ds b \<and> length ds + 1 \<le> nat k + 1) \<and>
         (\<forall>ds b. linear_tree t (heap w) ds b \<and> get e t rt = Some (hd ds) \<longrightarrow> len t1 \<le> nat k + 1)"
proof -
  have "wf_heap (heap w)" using steps_wf[OF assms(1)] disk_tree_inv[of d x] by simp
  then have "\<exists>a ds b. get e t rt = Some a \<and> is_chain (heap w1) a ds b \<and> length ds + 1 \<le> nat k + 1"
    using cap_chain_bound[OF _ assms(2,3)] by simp
  moreover have "len t1 \<le> nat k + 1" if "linear_tree t (heap w) ds b" "get e t rt = Some (hd ds)" for ds b
    using cap_linear_count[OF that assms(2,3)] .
  ultimately show ?thesis by blast
qed

lemma updates_steps: "(step e)\<^sup>*\<^sup>* tw (updates e ops tw)"
proof (induction ops arbitrary: tw)
  case Nil show ?case by simp
next
  case (Cons op ops)
  obtain rt prt ns where op: "op = (rt, prt, ns)" by (cases op)
  have "step e tw (snd (add e rt prt ns tw))"
    by (rule step_add[of e rt prt ns tw "fst (add e rt prt ns tw)"]) simp
  then show ?case using Cons.IH[of "snd (add e rt prt ns tw)"] op
    by (simp add: converse_rtranclp_into_rtranclp)
qed

lemma cap_chain3_inner: "map_option (\<lambda>r. (fst r, len (fst (snd r)))) (cap ext0 4 2 1 None None 0 chain3) = Some (None, 4)"
  unfolding chain3_def by code_simp

lemma cap_fork3_above: "map_option (\<lambda>r. (fst r, len (fst (snd r)))) (cap ext0 4 4 2 None None 0 fork3) = Some (None, 4)"
  unfolding fork3_def by code_simp

lemma cap_chain3_head: "map_option (\<lambda>r. (fst r, len (fst (snd r)))) (cap ext0 4 4 1 None None 0 chain3) = Some (None, 2)"
  unfolding chain3_def by code_simp

text \<open>
  The condition on the entries is needed. When the head of a chain has the root of the
  disk layer, its entry replaces the one of the disk layer; \<^verbatim>\<open>cap\<close> with one layer at
  that head then leaves three layers in the tree.
\<close>

lemma cap_repeated_root:
  "map_option (\<lambda>r. (fst r, len (fst (snd r))))
     (cap ext0 4 1 1 None None 0 (updates ext0 [(2, 1, []), (3, 2, []), (1, 3, [])] (disk_tree disk1 ()))) =
   Some (None, 3)"
  by code_simp

lemma chain3_linear:
  "linear_tree (fst chain3) (heap (snd chain3)) [3, 2, 1] 0 \<and> get ext0 (fst chain3) 4 = Some (hd [3, 2, 1])"
  unfolding chain3_def linear_tree_def keys_ok_def by code_simp

theorem cap_bounds_chain_witness:
  "(step ext0)\<^sup>*\<^sup>* (disk_tree disk1 ()) chain3 \<and> (0::int) < 1 \<and>
   linear_tree (fst chain3) (heap (snd chain3)) [3, 2, 1] 0 \<and> get ext0 (fst chain3) 4 = Some (hd [3, 2, 1]) \<and>
   (\<exists>t1 w1. cap ext0 4 4 1 None None 0 chain3 = Some (None, t1, w1) \<and> len t1 \<le> nat 1 + 1 \<and>
      (\<exists>a ds b. get ext0 (fst chain3) 4 = Some a \<and> is_chain (heap w1) a ds b \<and> length ds + 1 \<le> nat 1 + 1))"
proof -
  have s: "(step ext0)\<^sup>*\<^sup>* (disk_tree disk1 ()) chain3" unfolding chain3_def by (rule updates_steps)
  obtain t1 w1 where c: "cap ext0 4 4 1 None None 0 chain3 = Some (None, t1, w1)"
    using cap_chain3_head by (cases "cap ext0 4 4 1 None None 0 chain3") auto
  have k: "(0::int) < 1" by simp
  have s': "(step ext0)\<^sup>*\<^sup>* (disk_tree disk1 ()) (fst chain3, snd chain3)" using s by simp
  have c': "cap ext0 4 4 1 None None 0 (fst chain3, snd chain3) = Some (None, t1, w1)" using c by simp
  have r: "(\<exists>a ds b. get ext0 (fst chain3) 4 = Some a \<and> is_chain (heap w1) a ds b \<and> length ds + 1 \<le> nat 1 + 1) \<and>
      (\<forall>ds b. linear_tree (fst chain3) (heap (snd chain3)) ds b \<and> get ext0 (fst chain3) 4 = Some (hd ds) \<longrightarrow>
         len t1 \<le> nat 1 + 1)"
    using cap_bounds_chain[OF s' k c'] .
  then have "len t1 \<le> nat 1 + 1" using chain3_linear by blast
  then show ?thesis using s k c r chain3_linear by blast
qed

text \<open>
  The claim as stated fails where nothing below the cut is to flatten. On the chain of
  three diff layers, \<^verbatim>\<open>cap\<close> with one layer at the root of the lowest diff layer
  succeeds and the tree keeps its four layers: the two layers above that root are not
  touched. On the fork, where two heads stand on the same diff layer, \<^verbatim>\<open>cap\<close> with two
  layers at one head succeeds and the tree keeps its four layers: the chain of that
  head has the two diff layers it may keep, and the other head stays.
\<close>

theorem cap_layer_count_counterexample:
  "map_option (\<lambda>r. (fst r, len (fst (snd r)))) (cap ext0 4 2 1 None None 0 chain3) = Some (None, 4) \<and>
   map_option (\<lambda>r. (fst r, len (fst (snd r)))) (cap ext0 4 4 2 None None 0 fork3) = Some (None, 4) \<and>
   \<not> (4::nat) \<le> 1 + 1 \<and> \<not> (4::nat) \<le> 2 + 1"
  using cap_chain3_inner cap_fork3_above by simp

end
